theory Spec2Isabelle
  imports Main "HOL-Library.Sublist" "HOL-Library.AList"
begin

section \<open>Strings\<close>

text \<open>
  Python strings are modelled as HOL strings: lists of 8-bit characters, read as the
  code points 0 to 255. The test \<^verbatim>\<open>kw in s\<close> on strings is \<open>sublist kw s\<close>: \<open>kw\<close>
  occurs in \<open>s\<close> as a contiguous block. The whitespace characters and the word
  characters defined below are those of Python on these code points.

  \<open>lower\<close> and \<open>upper\<close> map the 26 ASCII letters and leave every other character as
  it is. Python also maps the accented letters of the range; its \<^verbatim>\<open>upper\<close> turns the
  sharp s into SS and takes the micro sign and the y with diaeresis out of the range.
  For classification, table purpose, validation, optimisation and keyword extraction
  this makes no difference: they look in the mapped text for ASCII phrases and
  keywords and for runs of ASCII letters between word boundaries, and an accented
  letter is no ASCII letter, no whitespace and a word character before and after the
  mapping. The SS made of a sharp s is part of no occurrence of a keyword, since the
  dangerous keywords and LIMIT hold no S and SELECT starts with a single one. Only
  \<open>extract_tables\<close>, which no theorem below is about, can differ, on a table name with
  such a letter.
\<close>

definition ascii_lowercase :: string where
  "ascii_lowercase = ''abcdefghijklmnopqrstuvwxyz''"

definition ascii_uppercase :: string where
  "ascii_uppercase = ''ABCDEFGHIJKLMNOPQRSTUVWXYZ''"

definition digits :: string where
  "digits = ''0123456789''"

definition lower_char :: "char \<Rightarrow> char" where
  "lower_char c = (case map_of (zip ascii_uppercase ascii_lowercase) c of
                     None \<Rightarrow> c | Some d \<Rightarrow> d)"

definition upper_char :: "char \<Rightarrow> char" where
  "upper_char c = (case map_of (zip ascii_lowercase ascii_uppercase) c of
                     None \<Rightarrow> c | Some d \<Rightarrow> d)"

definition lower :: "string \<Rightarrow> string" where
  "lower s = map lower_char s"

definition upper :: "string \<Rightarrow> string" where
  "upper s = map upper_char s"

section \<open>Query classification (query\_engine.py, \_classify\_query)\<close>

definition sql_keywords :: "string list" where
  "sql_keywords =
     [''how many'', ''count'', ''average'', ''total'', ''sum'',
      ''list all'', ''show me'', ''find employees'', ''department'',
      ''salary'', ''highest'', ''lowest'', ''hired'']"

definition doc_keywords :: "string list" where
  "doc_keywords =
     [''skills'', ''experience'', ''resume'', ''review'',
      ''performance'', ''feedback'', ''qualified'', ''expertise'',
      ''python'', ''javascript'', ''java'']"

definition sql_score :: "string \<Rightarrow> nat" where
  "sql_score query = length (filter (\<lambda>kw. sublist kw (lower query)) sql_keywords)"

definition doc_score :: "string \<Rightarrow> nat" where
  "doc_score query = length (filter (\<lambda>kw. sublist kw (lower query)) doc_keywords)"

definition classify_query :: "string \<Rightarrow> string" where
  "classify_query query =
     (let sql_score = sql_score query; doc_score = doc_score query in
      if sql_score > 0 \<and> doc_score > 0 then ''hybrid''
      else if sql_score > doc_score then ''sql''
      else if doc_score > 0 then ''document''
      else ''sql'')"

section \<open>SQL validation (text\_to\_sql.py)\<close>

text \<open>
  \<^verbatim>\<open>str.strip()\<close> removes the characters for which \<^verbatim>\<open>str.isspace()\<close> holds. Among
  the code points 0 to 255 these are tab, line feed, vertical tab, form feed, carriage
  return, the four separators 0x1C to 0x1F, the space, the next-line control 0x85 and
  the no-break space 0xA0.
\<close>

definition whitespace :: string where
  "whitespace = [CHR 0x09, CHR 0x0A, CHR 0x0B, CHR 0x0C, CHR 0x0D,
                 CHR 0x1C, CHR 0x1D, CHR 0x1E, CHR 0x1F, CHR '' '',
                 CHR 0x85, CHR 0xA0]"

definition isspace :: "char \<Rightarrow> bool" where
  "isspace c = (c \<in> set whitespace)"

definition strip :: "string \<Rightarrow> string" where
  "strip s = rev (dropWhile isspace (rev (dropWhile isspace s)))"

definition dangerous :: "string list" where
  "dangerous = [''DROP'', ''DELETE'', ''TRUNCATE'', ''ALTER'', ''CREATE'', ''UPDATE'']"

text \<open>
  \<open>validate_sql\<close> returns the pair \<open>(is_valid, error)\<close> of the source. The loop over
  \<open>dangerous\<close> returns at the first keyword found, which is what \<open>find\<close> computes.
\<close>

definition validate_sql :: "string \<Rightarrow> bool \<times> string" where
  "validate_sql sql =
     (if sql = [] then (False, ''Empty SQL query'')
      else
        (let sql_upper = upper sql in
         case find (\<lambda>keyword. sublist keyword sql_upper) dangerous of
           Some keyword \<Rightarrow> (False, ''Dangerous operation: '' @ keyword)
         | None \<Rightarrow>
             if \<not> prefix ''SELECT'' (strip sql_upper)
             then (False, ''Query must start with SELECT'')
             else (True, [])))"

text \<open>\<^verbatim>\<open>str.rstrip(';')\<close> removes every trailing semicolon.\<close>

definition rstrip_semicolon :: "string \<Rightarrow> string" where
  "rstrip_semicolon s = rev (dropWhile (\<lambda>c. c = CHR '';'') (rev s))"

definition optimize_sql :: "string \<Rightarrow> string" where
  "optimize_sql sql =
     (if \<not> sublist ''LIMIT'' (upper sql) then rstrip_semicolon sql @ '' LIMIT 100;''
      else sql)"

section \<open>Table purpose (schema\_discovery.py, \_infer\_table\_purpose)\<close>

record column_info =
  col_name :: string
  col_type :: string
  nullable :: bool
  col_default :: "string option"

text \<open>
  The source also computes the lowercased column names and never reads them; the
  result depends on the table name alone.
\<close>

definition infer_table_purpose :: "string \<Rightarrow> column_info list \<Rightarrow> string" where
  "infer_table_purpose table_name columns =
     (let name_lower = lower table_name;
          column_names = map (\<lambda>c. lower (col_name c)) columns
      in
      if list_ex (\<lambda>t. sublist t name_lower) [''employee'', ''staff'', ''personnel'', ''emp'']
        then ''Employee information''
      else if list_ex (\<lambda>t. sublist t name_lower) [''department'', ''dept'', ''division'']
        then ''Department/organizational structure''
      else if list_ex (\<lambda>t. sublist t name_lower) [''salary'', ''compensation'', ''pay'']
        then ''Salary and compensation data''
      else if list_ex (\<lambda>t. sublist t name_lower) [''document'', ''file'', ''attachment'']
        then ''Document storage''
      else ''General data table'')"

text \<open>
  The classification as the specification words it, with the keyword groups
  employee/staff/personnel, department/division, salary/compensation/pay and
  document/file/attachment; it is compared with \<open>infer_table_purpose\<close> below.
\<close>

definition spec_table_purpose :: "string \<Rightarrow> string" where
  "spec_table_purpose table_name =
     (let name_lower = lower table_name in
      if list_ex (\<lambda>t. sublist t name_lower) [''employee'', ''staff'', ''personnel'']
        then ''Employee information''
      else if list_ex (\<lambda>t. sublist t name_lower) [''department'', ''division'']
        then ''Department/organizational structure''
      else if list_ex (\<lambda>t. sublist t name_lower) [''salary'', ''compensation'', ''pay'']
        then ''Salary and compensation data''
      else if list_ex (\<lambda>t. sublist t name_lower) [''document'', ''file'', ''attachment'']
        then ''Document storage''
      else ''General data table'')"

section \<open>Exceptions\<close>

text \<open>
  The exceptions that the modelled code raises or receives from its libraries, each
  with its message. All of them are subclasses of \<^verbatim>\<open>Exception\<close>, the class that the
  handlers of the source catch. A function that can raise returns \<open>exn + 'a\<close>, with
  \<open>Inl\<close> for the exception.
\<close>

datatype exn =
    AttributeError string
  | ValueError string
  | TypeError string
  | KeyError string
  | OSError string
  | RuntimeError string

fun str_exn :: "exn \<Rightarrow> string" where
  "str_exn (AttributeError m) = m"
| "str_exn (ValueError m) = m"
| "str_exn (TypeError m) = m"
| "str_exn (KeyError m) = m"
| "str_exn (OSError m) = m"
| "str_exn (RuntimeError m) = m"


section \<open>Keyword extraction (document\_processor.py, \_extract\_keywords)\<close>

text \<open>The class \<^verbatim>\<open>[a-zA-Z]\<close> of the regular expression: the ASCII letters.\<close>

definition ascii_letter :: "char \<Rightarrow> bool" where
  "ascii_letter c = (c \<in> set (ascii_lowercase @ ascii_uppercase))"

text \<open>
  The class \<^verbatim>\<open>\w\<close>, which decides where the word boundaries \<^verbatim>\<open>\b\<close> are. On Python
  strings it holds the underscore and every alphanumeric character: among the code
  points 0 to 255 the ASCII letters and digits, the two ordinal indicators, the micro
  sign, the superscript digits, the three fractions and the accented letters (0xC0 to
  0xFF without the multiplication and the division sign).
\<close>

definition latin1_word :: string where
  "latin1_word =
     [CHR 0xAA, CHR 0xB2, CHR 0xB3, CHR 0xB5, CHR 0xB9, CHR 0xBA, CHR 0xBC, CHR 0xBD,
      CHR 0xBE, CHR 0xC0, CHR 0xC1, CHR 0xC2, CHR 0xC3, CHR 0xC4, CHR 0xC5, CHR 0xC6,
      CHR 0xC7, CHR 0xC8, CHR 0xC9, CHR 0xCA, CHR 0xCB, CHR 0xCC, CHR 0xCD, CHR 0xCE,
      CHR 0xCF, CHR 0xD0, CHR 0xD1, CHR 0xD2, CHR 0xD3, CHR 0xD4, CHR 0xD5, CHR 0xD6,
      CHR 0xD8, CHR 0xD9, CHR 0xDA, CHR 0xDB, CHR 0xDC, CHR 0xDD, CHR 0xDE, CHR 0xDF,
      CHR 0xE0, CHR 0xE1, CHR 0xE2, CHR 0xE3, CHR 0xE4, CHR 0xE5, CHR 0xE6, CHR 0xE7,
      CHR 0xE8, CHR 0xE9, CHR 0xEA, CHR 0xEB, CHR 0xEC, CHR 0xED, CHR 0xEE, CHR 0xEF,
      CHR 0xF0, CHR 0xF1, CHR 0xF2, CHR 0xF3, CHR 0xF4, CHR 0xF5, CHR 0xF6, CHR 0xF8,
      CHR 0xF9, CHR 0xFA, CHR 0xFB, CHR 0xFC, CHR 0xFD, CHR 0xFE, CHR 0xFF]"

definition is_word_char :: "char \<Rightarrow> bool" where
  "is_word_char c =
     (c \<in> set (ascii_lowercase @ ascii_uppercase @ digits @ ''_'' @ latin1_word))"

text \<open>
  \<open>findall_words\<close> is \<^verbatim>\<open>re.findall(r'\b[a-zA-Z]{3,}\b', s)\<close>, scanning from left to right.
  The flag tells whether the character before the current position is a word
  character (at the start of the string it is not). A match starts at a letter that
  follows no word character; the greedy \<^verbatim>\<open>[a-zA-Z]{3,}\<close> takes the whole run of letters,
  and the closing \<^verbatim>\<open>\b\<close> holds at the end of the run only, where it asks for the end of
  the string or a character that is no word character. A run that fails is skipped whole:
  inside it every position follows a letter, so no match starts there.
\<close>

function findall_words :: "bool \<Rightarrow> string \<Rightarrow> string list" where
  "findall_words prev [] = []"
| "findall_words prev (c # cs) =
     (if ascii_letter c \<and> \<not> prev then
        (let run = c # takeWhile ascii_letter cs; rest = dropWhile ascii_letter cs in
         if 3 \<le> length run \<and> (case rest of [] \<Rightarrow> True | d # _ \<Rightarrow> \<not> is_word_char d)
         then run # findall_words True rest
         else findall_words True rest)
      else findall_words (is_word_char c) cs)"
  by pat_completeness auto
termination
  by (relation "measure (\<lambda>(prev, s). length s)")
     (auto simp: less_Suc_eq_le length_dropWhile_le)

definition stopwords :: "string list" where
  "stopwords =
     [''the'', ''is'', ''at'', ''which'', ''on'', ''and'', ''a'', ''an'', ''as'', ''are'',
      ''was'', ''were'', ''been'', ''be'', ''have'', ''has'', ''had'', ''do'', ''does'',
      ''did'', ''will'', ''would'', ''should'', ''could'', ''may'', ''might'', ''must'',
      ''can'', ''this'', ''that'', ''these'', ''those'', ''with'', ''from'', ''for'',
      ''but'', ''not'', ''all'', ''any'', ''some'', ''such'', ''into'', ''just'', ''than'',
      ''very'', ''too'', ''also'', ''only'', ''then'', ''when'', ''where'', ''how'', ''why'']"

text \<open>
  \<open>keyword_words\<close> is the sequence of words that the set comprehension of the source
  inserts, in the order of the text; \<open>extract_keywords\<close> is the set it builds.
\<close>

definition keyword_words :: "string \<Rightarrow> string list" where
  "keyword_words txt =
     filter (\<lambda>w. w \<notin> set stopwords \<and> length w > 2) (findall_words False (lower txt))"

definition extract_keywords :: "string \<Rightarrow> string set" where
  "extract_keywords txt = set (keyword_words txt)"

section \<open>The keyword index (document\_processor.py, KeywordDocumentProcessor)\<close>

text \<open>
  A stored document is the dictionary with the keys id, file, text, keywords and
  preview. The processor holds the list of documents and the index from keyword to
  posting list; a keyword that the \<^verbatim>\<open>defaultdict\<close> does not hold is \<open>None\<close>.
\<close>

record document =
  d_id :: nat
  d_file :: string
  d_text :: string
  d_keywords :: "string list"
  d_preview :: string

record processor =
  documents :: "document list"
  keyword_index :: "string \<rightharpoonup> nat list"

text \<open>
  Reading a file is input and output of libraries: the three readers are taken as
  functions from the path to the text read or the exception raised.
\<close>

record readers =
  extract_pdf :: "string \<Rightarrow> exn + string"
  extract_docx :: "string \<Rightarrow> exn + string"
  extract_txt :: "string \<Rightarrow> exn + string"

text \<open>\<^verbatim>\<open>s.split(sep)\<close> for a separator of one character; the result is never empty.\<close>

fun split_on :: "char \<Rightarrow> string \<Rightarrow> string list" where
  "split_on sep [] = [[]]"
| "split_on sep (c # cs) =
     (if c = sep then [] # split_on sep cs
      else (case split_on sep cs of w # ws \<Rightarrow> (c # w) # ws | [] \<Rightarrow> [[c]]))"

definition file_ext :: "string \<Rightarrow> string" where
  "file_ext file_path = lower (last (split_on CHR ''.'' file_path))"

definition basename :: "string \<Rightarrow> string" where
  "basename file_path = last (split_on CHR ''/'' file_path)"

definition extract_text :: "readers \<Rightarrow> string \<Rightarrow> exn + string" where
  "extract_text rd file_path =
     (let ext = file_ext file_path in
      if ext = ''pdf'' then extract_pdf rd file_path
      else if ext = ''docx'' then extract_docx rd file_path
      else if ext = ''txt'' then extract_txt rd file_path
      else Inl (ValueError (''Unsupported file type: '' @ ext)))"

text \<open>
  A Python set is iterated in an order that its hashing fixes and that the program
  does not control. Where the source iterates the keyword set, the model applies a
  function \<open>iter\<close> to the sequence of words the set was built from; \<open>iterates iter\<close>
  says that \<open>iter\<close> lists every element of the set once. The theorems hold for every
  such function.
\<close>

definition iterates :: "(string list \<Rightarrow> string list) \<Rightarrow> bool" where
  "iterates iter \<longleftrightarrow> (\<forall>ws. distinct (iter ws) \<and> set (iter ws) = set ws)"

definition posting :: "(string \<rightharpoonup> nat list) \<Rightarrow> string \<Rightarrow> nat list" where
  "posting idx k = (case idx k of None \<Rightarrow> [] | Some ids \<Rightarrow> ids)"

text \<open>\<^verbatim>\<open>self.keyword_index[keyword.lower()].append(doc_id)\<close>\<close>

definition index_append :: "nat \<Rightarrow> string \<Rightarrow> (string \<rightharpoonup> nat list) \<Rightarrow> (string \<rightharpoonup> nat list)" where
  "index_append doc_id keyword idx =
     idx(lower keyword \<mapsto> posting idx (lower keyword) @ [doc_id])"

record file_summary =
  s_file :: string
  keywords_found :: nat

record results =
  processed :: nat
  failed :: nat
  total_documents :: nat
  r_documents :: "file_summary list"

text \<open>
  \<open>process_file\<close> is the body of the \<^verbatim>\<open>try\<close> block for one file. The only statement of
  the block that can raise is the first, the text extraction, so the block either
  raises before it changes anything or runs to its end.
\<close>

definition process_file ::
  "(string list \<Rightarrow> string list) \<Rightarrow> readers \<Rightarrow> processor \<Rightarrow> string
     \<Rightarrow> exn + (processor \<times> file_summary)" where
  "process_file iter rd st file_path =
     (case extract_text rd file_path of
        Inl e \<Rightarrow> Inl e
      | Inr txt \<Rightarrow>
          (let kws = iter (keyword_words txt);
               doc_id = length (documents st);
               doc = \<lparr> d_id = doc_id,
                       d_file = basename file_path,
                       d_text = txt,
                       d_keywords = kws,
                       d_preview = (if length txt > 200 then take 200 txt @ ''...'' else txt) \<rparr>
           in Inr (\<lparr> documents = documents st @ [doc],
                       keyword_index = fold (index_append doc_id) kws (keyword_index st) \<rparr>,
                   \<lparr> s_file = d_file doc, keywords_found = length kws \<rparr>)))"

text \<open>The loop over the files, with the handler that counts a failure and goes on.\<close>

fun process_files ::
  "(string list \<Rightarrow> string list) \<Rightarrow> readers \<Rightarrow> string list \<Rightarrow> processor \<times> results
     \<Rightarrow> processor \<times> results" where
  "process_files iter rd [] (st, res) = (st, res)"
| "process_files iter rd (file_path # rest) (st, res) =
     (case process_file iter rd st file_path of
        Inl e \<Rightarrow> process_files iter rd rest (st, res\<lparr> failed := failed res + 1 \<rparr>)
      | Inr (st', summary) \<Rightarrow>
          process_files iter rd rest
            (st', res\<lparr> processed := processed res + 1,
                       r_documents := r_documents res @ [summary] \<rparr>))"

text \<open>
  \<open>process_documents\<close> returns the new state of the processor with the result that the
  source returns. Saving the index to disk does not change the state and swallows its
  own errors; it is left out.
\<close>

definition process_documents ::
  "(string list \<Rightarrow> string list) \<Rightarrow> readers \<Rightarrow> processor \<Rightarrow> string list
     \<Rightarrow> processor \<times> results" where
  "process_documents iter rd st file_paths =
     (case process_files iter rd file_paths
             (st, \<lparr> processed = 0, failed = 0, total_documents = 0, r_documents = [] \<rparr>) of
        (st', res) \<Rightarrow> (st', res\<lparr> total_documents := length (documents st') \<rparr>))"

definition empty_processor :: processor where
  "empty_processor = \<lparr> documents = [], keyword_index = Map.empty \<rparr>"

section \<open>Search (document\_processor.py, search)\<close>

text \<open>
  A search result is a copy of the stored document with the two keys match\_score and
  matched\_keywords added.
\<close>

record match = document +
  match_score :: int
  matched_keywords :: "string list"

text \<open>
  \<open>doc_scores\<close> is the \<^verbatim>\<open>defaultdict(int)\<close> of the source, kept as an association list
  in insertion order, the order in which a Python dictionary is iterated:
  \<open>AList.update\<close> replaces the value of a key that is present and appends a new key.
\<close>

definition score_of :: "(nat \<times> int) list \<Rightarrow> nat \<Rightarrow> int" where
  "score_of scores doc_id = (case map_of scores doc_id of None \<Rightarrow> 0 | Some s \<Rightarrow> s)"

text \<open>\<^verbatim>\<open>doc_scores[doc_id] += 1\<close>\<close>

definition bump :: "nat \<Rightarrow> (nat \<times> int) list \<Rightarrow> (nat \<times> int) list" where
  "bump doc_id scores = AList.update doc_id (score_of scores doc_id + 1) scores"

definition doc_scores :: "(string \<rightharpoonup> nat list) \<Rightarrow> string list \<Rightarrow> (nat \<times> int) list" where
  "doc_scores idx query_keywords =
     fold (\<lambda>keyword scores.
             case idx (lower keyword) of
               None \<Rightarrow> scores
             | Some ids \<Rightarrow> fold bump ids scores)
          query_keywords []"

text \<open>The slice \<^verbatim>\<open>xs[:k]\<close>: a negative \<open>k\<close> counts from the end of the list.\<close>

definition slice_to :: "int \<Rightarrow> 'a list \<Rightarrow> 'a list" where
  "slice_to k xs = (if 0 \<le> k then take (nat k) xs else take (length xs - nat (- k)) xs)"

text \<open>
  \<^verbatim>\<open>sorted(..., key=lambda x: x[1], reverse=True)\<close> is a stable sort on the score alone,
  largest first: items of equal score keep the order they have in the dictionary.
\<close>

definition sorted_docs :: "(nat \<times> int) list \<Rightarrow> int \<Rightarrow> (nat \<times> int) list" where
  "sorted_docs scores top_k = slice_to top_k (sort_key (\<lambda>(doc_id, score). - score) scores)"

definition make_match :: "document \<Rightarrow> int \<Rightarrow> string list \<Rightarrow> match" where
  "make_match doc score query_keywords =
     \<lparr> d_id = d_id doc, d_file = d_file doc, d_text = d_text doc,
       d_keywords = d_keywords doc, d_preview = d_preview doc,
       match_score = score,
       matched_keywords = filter (\<lambda>kw. lower kw \<in> set (d_keywords doc)) query_keywords \<rparr>"

definition search ::
  "(string list \<Rightarrow> string list) \<Rightarrow> processor \<Rightarrow> string \<Rightarrow> int \<Rightarrow> match list" where
  "search iter st query top_k =
     (if extract_keywords query = {} then []
      else
        (let query_keywords = iter (keyword_words query);
             scores = doc_scores (keyword_index st) query_keywords
         in map (\<lambda>(doc_id, score). make_match (documents st ! doc_id) score query_keywords)
                (filter (\<lambda>(doc_id, score). doc_id < length (documents st))
                        (sorted_docs scores top_k))))"

section \<open>Notions used to state the properties of the index\<close>

text \<open>
  \<open>ids_dense\<close>: the document stored at position \<open>i\<close> has id \<open>i\<close>.
  \<open>postings_valid\<close>: every id in a posting list is a position of the document list.
  \<open>postings_distinct\<close>: no posting list holds an id twice.
  \<open>doc_consistent st d\<close>: the posting lists that hold \<open>d\<close> are those of the keywords
  stored with document \<open>d\<close>, and each holds it once.
\<close>

definition ids_dense :: "processor \<Rightarrow> bool" where
  "ids_dense st \<longleftrightarrow> (\<forall>i < length (documents st). d_id (documents st ! i) = i)"

definition postings_valid :: "processor \<Rightarrow> bool" where
  "postings_valid st \<longleftrightarrow>
     (\<forall>k. \<forall>d \<in> set (posting (keyword_index st) k). d < length (documents st))"

definition postings_distinct :: "processor \<Rightarrow> bool" where
  "postings_distinct st \<longleftrightarrow> (\<forall>k. distinct (posting (keyword_index st) k))"

definition doc_consistent :: "processor \<Rightarrow> nat \<Rightarrow> bool" where
  "doc_consistent st d \<longleftrightarrow>
     (\<forall>k. count_list (posting (keyword_index st) k) d =
            (if k \<in> set (d_keywords (documents st ! d)) then 1 else 0))"

text \<open>
  \<open>candidates\<close> lists the document ids in the order in which the scoring loop of
  \<open>search\<close> reaches them: the posting list of the first query keyword, then that of
  the second, and so on. \<open>first_seen\<close> keeps the first occurrence of every element.
\<close>

definition candidates :: "(string \<rightharpoonup> nat list) \<Rightarrow> string list \<Rightarrow> nat list" where
  "candidates idx query_keywords = concat (map (\<lambda>kw. posting idx (lower kw)) query_keywords)"

fun first_seen :: "'a list \<Rightarrow> 'a list" where
  "first_seen [] = []"
| "first_seen (x # xs) = x # filter (\<lambda>y. y \<noteq> x) (first_seen xs)"

section \<open>Example data\<close>

text \<open>
  Three text files, a.txt holding "Java", b.txt holding "Python" and c.txt holding
  "java"; every other path cannot be read. \<open>example_index\<close> is the processor after it
  has ingested the three files, starting empty.
\<close>

definition example_readers :: readers where
  "example_readers =
     \<lparr> extract_pdf = (\<lambda>p. Inl (OSError ''No such file or directory'')),
       extract_docx = (\<lambda>p. Inl (OSError ''No such file or directory'')),
       extract_txt = (\<lambda>p. if p = ''a.txt'' then Inr ''Java''
                           else if p = ''b.txt'' then Inr ''Python''
                           else if p = ''c.txt'' then Inr ''java''
                           else Inl (OSError ''No such file or directory'')) \<rparr>"

definition example_index :: processor where
  "example_index =
     fst (process_documents remdups example_readers empty_processor
            [''a.txt'', ''b.txt'', ''c.txt''])"

text \<open>
  Two text files more, x.txt holding "Java" and y.txt holding "Java and Python
  developer"; \<open>ranking_index\<close> is the processor after it has ingested the two, starting
  empty.
\<close>

definition ranking_readers :: readers where
  "ranking_readers =
     \<lparr> extract_pdf = (\<lambda>p. Inl (OSError ''No such file or directory'')),
       extract_docx = (\<lambda>p. Inl (OSError ''No such file or directory'')),
       extract_txt = (\<lambda>p. if p = ''x.txt'' then Inr ''Java''
                           else if p = ''y.txt'' then Inr ''Java and Python developer''
                           else Inl (OSError ''No such file or directory'')) \<rparr>"

definition ranking_index :: processor where
  "ranking_index =
     fst (process_documents remdups ranking_readers empty_processor [''x.txt'', ''y.txt''])"

text \<open>
  \<open>keyword_hits idx qs d\<close> is the number of the query keywords \<open>qs\<close> whose posting
  lists hold the id \<open>d\<close>. \<open>ranked_candidates\<close> is the ranking that the search is
  compared with: every id that a posting list of a query keyword holds, once, in the
  order in which the ids are first reached, each with its number of hits, sorted by
  the number of hits, largest first, by a stable sort.
\<close>

definition keyword_hits :: "(string \<rightharpoonup> nat list) \<Rightarrow> string list \<Rightarrow> nat \<Rightarrow> int" where
  "keyword_hits idx qs d = int (length (filter (\<lambda>kw. d \<in> set (posting idx kw)) qs))"

definition ranked_candidates ::
  "(string \<rightharpoonup> nat list) \<Rightarrow> string list \<Rightarrow> (nat \<times> int) list" where
  "ranked_candidates idx qs =
     sort_key (\<lambda>(d, hits). - hits)
       (map (\<lambda>d. (d, keyword_hits idx qs d)) (first_seen (candidates idx qs)))"

text \<open>
  \<open>token_at prev s w\<close>: the word \<open>w\<close> is a run of at least three ASCII letters that
  stands in \<open>s\<close> between two word boundaries. Before the run comes a character that
  is no word character or the start of \<open>s\<close> (the start counts only when \<open>prev\<close>, the
  flag for a word character before \<open>s\<close>, is off); after it comes a character that is
  no word character or the end of \<open>s\<close>.
\<close>

definition token_at :: "bool \<Rightarrow> string \<Rightarrow> string \<Rightarrow> bool" where
  "token_at prev s w \<longleftrightarrow>
     (\<exists>pre post. s = pre @ w @ post \<and> 3 \<le> length w \<and> (\<forall>c \<in> set w. ascii_letter c) \<and>
        (if pre = [] then \<not> prev else \<not> is_word_char (last pre)) \<and>
        (post = [] \<or> \<not> is_word_char (hd post)))"


section \<open>The cache (cache.py)\<close>

text \<open>
  The class \<^verbatim>\<open>SmartCache\<close> sets three attributes in its constructor and defines the
  methods \<^verbatim>\<open>connect\<close> and \<^verbatim>\<open>close\<close>; the module creates one instance,
  \<^verbatim>\<open>cache = SmartCache(use_redis=False)\<close>.
\<close>

record SmartCache =
  use_redis :: bool
  redis_url :: string
  client :: "string option"

definition SmartCache_init :: "bool \<Rightarrow> string \<Rightarrow> SmartCache" where
  "SmartCache_init use_redis_arg redis_url_arg =
     \<lparr> use_redis = use_redis_arg, redis_url = redis_url_arg, client = None \<rparr>"

definition cache :: SmartCache where
  "cache = SmartCache_init False ''redis://localhost:6379''"

text \<open>
  Looking an attribute up on a \<^verbatim>\<open>SmartCache\<close> object gives one of the three instance
  attributes or one of the methods of the class; any other name of the program raises
  \<^verbatim>\<open>AttributeError\<close>. (The attributes that every Python object inherits are left out;
  none of them is named cache\_key, get or set.)
\<close>

datatype attr =
    Attr_bool bool
  | Attr_str string
  | Attr_client "string option"
  | Attr_method string

definition SmartCache_methods :: "string list" where
  "SmartCache_methods = [''__init__'', ''connect'', ''close'']"

definition getattr :: "SmartCache \<Rightarrow> string \<Rightarrow> exn + attr" where
  "getattr obj name =
     (if name = ''use_redis'' then Inr (Attr_bool (use_redis obj))
      else if name = ''redis_url'' then Inr (Attr_str (redis_url obj))
      else if name = ''client'' then Inr (Attr_client (client obj))
      else if name \<in> set SmartCache_methods then Inr (Attr_method name)
      else Inl (AttributeError
                  ([CHR 0x27] @ ''SmartCache'' @ [CHR 0x27] @ '' object has no attribute ''
                   @ [CHR 0x27] @ name @ [CHR 0x27])))"

text \<open>
  What calling an attribute does once it has been found is the business of the Python
  runtime and of the method found; the model takes it as a parameter, one function for
  each of the three calls that the program makes on the cache object. A lookup through
  \<^verbatim>\<open>get\<close> that finds nothing is Python's \<^verbatim>\<open>None\<close>.
\<close>

record ('a, 'r) calls =
  call_cache_key :: "attr \<Rightarrow> string \<Rightarrow> 'a \<Rightarrow> exn + string"
  call_get :: "attr \<Rightarrow> string \<Rightarrow> exn + 'r option"
  call_set :: "attr \<Rightarrow> string \<Rightarrow> 'r \<Rightarrow> int option \<Rightarrow> exn + unit"

text \<open>The expressions \<^verbatim>\<open>cache.get(key)\<close> and \<^verbatim>\<open>cache.set(key, value, ttl)\<close>.\<close>

definition cache_get :: "('a, 'r) calls \<Rightarrow> string \<Rightarrow> exn + 'r option" where
  "cache_get rt key =
     (case getattr cache ''get'' of
        Inl e \<Rightarrow> Inl e
      | Inr m \<Rightarrow> call_get rt m key)"

definition cache_set :: "('a, 'r) calls \<Rightarrow> string \<Rightarrow> 'r \<Rightarrow> int option \<Rightarrow> exn + unit" where
  "cache_set rt key val ttl =
     (case getattr cache ''set'' of
        Inl e \<Rightarrow> Inl e
      | Inr m \<Rightarrow> call_set rt m key val ttl)"

text \<open>
  \<open>cached rt prefix_str ttl func\<close> is the wrapper that the decorator returns for \<open>func\<close>;
  \<open>args\<close> stands for the arguments of the call.
\<close>

definition cached ::
  "('a, 'r) calls \<Rightarrow> string \<Rightarrow> int option \<Rightarrow> ('a \<Rightarrow> exn + 'r) \<Rightarrow> 'a \<Rightarrow> exn + 'r" where
  "cached rt prefix_str ttl func args =
     (case getattr cache ''cache_key'' of
        Inl e \<Rightarrow> Inl e
      | Inr m \<Rightarrow>
     (case call_cache_key rt m prefix_str args of
        Inl e \<Rightarrow> Inl e
      | Inr cache_key \<Rightarrow>
     (case cache_get rt cache_key of
        Inl e \<Rightarrow> Inl e
      | Inr (Some cached_result) \<Rightarrow> Inr cached_result
      | Inr None \<Rightarrow>
     (case func args of
        Inl e \<Rightarrow> Inl e
      | Inr result \<Rightarrow>
     (case cache_set rt cache_key result ttl of
        Inl e \<Rightarrow> Inl e
      | Inr u \<Rightarrow> Inr result)))))"


section \<open>The query engine (query\_engine.py)\<close>

text \<open>
  The results of the engine are dictionaries whose keys are added and merged at run
  time. A dictionary is an association list in insertion order; its values are the
  Python values that the results hold. The type \<open>'f\<close> stands for Python's floats.
\<close>

datatype 'f pyval =
    PNone
  | PBool bool
  | PInt int
  | PFloat 'f
  | PStr string
  | PList "'f pyval list"
  | PDict "(string \<times> 'f pyval) list"

type_synonym 'f pydict = "(string \<times> 'f pyval) list"

text \<open>\<^verbatim>\<open>d.get(k)\<close>, \<^verbatim>\<open>d[k] = v\<close> and \<^verbatim>\<open>d.update(e)\<close>.\<close>

definition dict_get :: "'f pydict \<Rightarrow> string \<Rightarrow> 'f pyval" where
  "dict_get d k = (case map_of d k of None \<Rightarrow> PNone | Some v \<Rightarrow> v)"

definition dict_set :: "string \<Rightarrow> 'f pyval \<Rightarrow> 'f pydict \<Rightarrow> 'f pydict" where
  "dict_set k v d = AList.update k v d"

definition dict_update :: "'f pydict \<Rightarrow> 'f pydict \<Rightarrow> 'f pydict" where
  "dict_update d e = fold (\<lambda>(k, v). dict_set k v) e d"

text \<open>The truth value that an \<^verbatim>\<open>if\<close> gives to a Python value.\<close>

fun truthy :: "('f::zero) pyval \<Rightarrow> bool" where
  "truthy PNone = False"
| "truthy (PBool b) = b"
| "truthy (PInt i) = (i \<noteq> 0)"
| "truthy (PFloat x) = (x \<noteq> 0)"
| "truthy (PStr s) = (s \<noteq> [])"
| "truthy (PList xs) = (xs \<noteq> [])"
| "truthy (PDict d) = (d \<noteq> [])"

subsection \<open>SQL generation (text\_to\_sql.py, generate\_sql)\<close>

text \<open>
  \<^verbatim>\<open>_extract_tables\<close>: the tables of the schema whose upper-cased name occurs in the
  upper-cased statement.
\<close>

definition extract_tables :: "string \<Rightarrow> string list \<Rightarrow> string list" where
  "extract_tables sql table_names =
     filter (\<lambda>name. sublist (upper name) (upper sql)) table_names"

text \<open>
  \<open>respond\<close> stands for building the prompt and asking the language model: it gives
  the text of the response or the exception raised. \<open>extract_sql\<close> stands for the
  extraction of the statement from the response. Validation and optimisation are the
  functions above.
\<close>

definition generate_sql ::
  "(string \<Rightarrow> exn + string) \<Rightarrow> (string \<Rightarrow> string) \<Rightarrow> string list \<Rightarrow> string \<Rightarrow> 'f pydict" where
  "generate_sql respond extract_sql table_names user_query =
     (case respond user_query of
        Inl e \<Rightarrow> [(''sql'', PNone), (''error'', PStr (str_exn e))]
      | Inr sql_text \<Rightarrow>
          (let sql = extract_sql sql_text in
           case validate_sql sql of
             (is_valid, error) \<Rightarrow>
               if \<not> is_valid
               then [(''sql'', PNone), (''error'', PStr error), (''explanation'', PStr sql_text)]
               else
                 (let optimized_sql = optimize_sql sql in
                  [(''sql'', PStr optimized_sql),
                   (''explanation'', PStr sql_text),
                   (''tables_used'',
                      PList (map PStr (extract_tables optimized_sql table_names)))])))"

subsection \<open>The handlers\<close>

text \<open>
  \<open>handle_sql_query\<close> is the body of \<^verbatim>\<open>_handle_sql_query\<close>, the function that the
  decorator wraps. \<open>generate\<close> is the SQL generation for the schema of the engine.
  \<open>execute\<close> stands for running the statement on the session and turning the rows
  into dictionaries: it gives the rows or the exception raised. Reading the key sql of
  a dictionary that does not hold it raises \<^verbatim>\<open>KeyError\<close>, outside the \<^verbatim>\<open>try\<close> block.
\<close>

definition handle_sql_query ::
  "(string \<Rightarrow> ('f::zero) pydict) \<Rightarrow> ('f pyval \<Rightarrow> exn + 'f pydict list) \<Rightarrow> string
     \<Rightarrow> exn + 'f pydict" where
  "handle_sql_query generate execute query =
     (let sql_result = generate query in
      if truthy (dict_get sql_result ''error'')
      then Inr [(''error'', dict_get sql_result ''error'')]
      else
        (case map_of sql_result ''sql'' of
           None \<Rightarrow> Inl (KeyError ([CHR 0x27] @ ''sql'' @ [CHR 0x27]))
         | Some sql_query \<Rightarrow>
             (case execute sql_query of
                Inr data \<Rightarrow>
                  Inr [(''sql'', sql_query),
                       (''data'', PList (map PDict data)),
                       (''row_count'', PInt (int (length data)))]
              | Inl e \<Rightarrow> Inr [(''error'', PStr (''SQL execution failed: '' @ str_exn e))])))"

definition match_dict :: "match \<Rightarrow> 'f pydict" where
  "match_dict m =
     [(''id'', PInt (int (d_id m))),
      (''file'', PStr (d_file m)),
      (''text'', PStr (d_text m)),
      (''keywords'', PList (map PStr (d_keywords m))),
      (''preview'', PStr (d_preview m)),
      (''match_score'', PInt (match_score m)),
      (''matched_keywords'', PList (map PStr (matched_keywords m)))]"

definition handle_document_query ::
  "(string list \<Rightarrow> string list) \<Rightarrow> processor \<Rightarrow> string \<Rightarrow> exn + 'f pydict" where
  "handle_document_query iter st query =
     (let results = search iter st query 5 in
      Inr [(''documents'', PList (map (\<lambda>m. PDict (match_dict m)) results)),
           (''count'', PInt (int (length results)))])"

subsection \<open>process\_query\<close>

text \<open>
  The two readings of the clock are \<open>start_time\<close> and \<open>end_time\<close>; \<open>fsub\<close> and \<open>round3\<close>
  are the subtraction of floats and \<^verbatim>\<open>round(x, 3)\<close>. The two handlers are parameters:
  each gives its dictionary or the exception it raises. \<open>process_query_try\<close> is the
  \<^verbatim>\<open>try\<close> block, \<open>process_query\<close> the function with its handler for every
  exception.
\<close>

definition process_query_try ::
  "('f \<Rightarrow> 'f \<Rightarrow> 'f) \<Rightarrow> ('f \<Rightarrow> 'f) \<Rightarrow> (string \<Rightarrow> exn + 'f pydict) \<Rightarrow> (string \<Rightarrow> exn + 'f pydict)
     \<Rightarrow> 'f \<Rightarrow> 'f \<Rightarrow> string \<Rightarrow> exn + 'f pydict" where
  "process_query_try fsub round3 handle_sql handle_doc start_time end_time user_query =
     (let query_type = classify_query user_query;
          result = [(''query'', PStr user_query),
                    (''query_type'', PStr query_type),
                    (''results'', PList []),
                    (''sources'', PList []),
                    (''performance'', PDict []),
                    (''cached'', PBool False)]
      in
      case
        (if query_type = ''sql'' then
           (case handle_sql user_query of
              Inl e \<Rightarrow> Inl e
            | Inr sql_results \<Rightarrow>
                Inr (dict_set ''sources'' (PList [PStr ''database''])
                      (dict_set ''results'' (dict_get sql_results ''data'')
                        (dict_update result sql_results))))
         else if query_type = ''document'' then
           (case handle_doc user_query of
              Inl e \<Rightarrow> Inl e
            | Inr doc_results \<Rightarrow>
                Inr (dict_set ''sources'' (PList [PStr ''documents''])
                      (dict_set ''results'' (dict_get doc_results ''documents'')
                        (dict_update result doc_results))))
         else if query_type = ''hybrid'' then
           (case handle_sql user_query of
              Inl e \<Rightarrow> Inl e
            | Inr sql_results \<Rightarrow>
                (case handle_doc user_query of
                   Inl e \<Rightarrow> Inl e
                 | Inr doc_results \<Rightarrow>
                     Inr (dict_set ''sources'' (PList [PStr ''database'', PStr ''documents''])
                           (dict_set ''results''
                              (PDict [(''database'', PDict sql_results),
                                      (''documents'', PDict doc_results)])
                              result))))
         else Inr result)
      of
        Inl e \<Rightarrow> Inl e
      | Inr result \<Rightarrow>
          Inr (dict_set ''performance''
                 (PDict [(''response_time'', PFloat (round3 (fsub end_time start_time)))])
                 result))"

definition process_query ::
  "('f \<Rightarrow> 'f \<Rightarrow> 'f) \<Rightarrow> ('f \<Rightarrow> 'f) \<Rightarrow> (string \<Rightarrow> exn + 'f pydict) \<Rightarrow> (string \<Rightarrow> exn + 'f pydict)
     \<Rightarrow> 'f \<Rightarrow> 'f \<Rightarrow> string \<Rightarrow> 'f pydict" where
  "process_query fsub round3 handle_sql handle_doc start_time end_time user_query =
     (case process_query_try fsub round3 handle_sql handle_doc start_time end_time user_query of
        Inr result \<Rightarrow> result
      | Inl e \<Rightarrow>
          [(''query'', PStr user_query),
           (''error'', PStr (str_exn e)),
           (''query_type'', PStr ''unknown'')])"

text \<open>
  The engine as the repository wires it: the SQL handler is the wrapper that the
  decorator \<^verbatim>\<open>@cached(prefix="sql_query", ttl=300)\<close> makes of \<open>handle_sql_query\<close>, and
  the document handler searches the keyword index.
\<close>

definition engine_process_query ::
  "(string, ('f::zero) pydict) calls \<Rightarrow> ('f \<Rightarrow> 'f \<Rightarrow> 'f) \<Rightarrow> ('f \<Rightarrow> 'f)
     \<Rightarrow> (string \<Rightarrow> 'f pydict) \<Rightarrow> ('f pyval \<Rightarrow> exn + 'f pydict list)
     \<Rightarrow> (string list \<Rightarrow> string list) \<Rightarrow> processor
     \<Rightarrow> 'f \<Rightarrow> 'f \<Rightarrow> string \<Rightarrow> 'f pydict" where
  "engine_process_query rt fsub round3 generate execute iter st start_time end_time user_query =
     process_query fsub round3
       (cached rt ''sql_query'' (Some 300) (handle_sql_query generate execute))
       (handle_document_query iter st)
       start_time end_time user_query"


section \<open>Helper lemmas\<close>

lemma find_Some_set: "find P xs = Some x \<Longrightarrow> x \<in> set xs \<and> P x"
  by (induction xs) (auto split: if_splits)

lemma distinct_sql_keywords: "distinct sql_keywords"
  by (simp add: sql_keywords_def)

lemma distinct_doc_keywords: "distinct doc_keywords"
  by (simp add: doc_keywords_def)

lemma length_filter_card: "distinct xs \<Longrightarrow> length (filter P xs) = card {x \<in> set xs. P x}"
  by (metis distinct_card distinct_filter set_filter)

lemma sublist_emp_employee: "sublist ''emp'' ''employee''"
  by code_simp

lemma employee_mentions_emp: "sublist ''employee'' s \<Longrightarrow> sublist ''emp'' s"
  using sublist_emp_employee sublist_order.order_trans by blast

section \<open>Query classification\<close>

text \<open>
  Claim C2, as the source has it. The two scores count the phrases of the fixed lists
  that occur in the lowercased query, and the decision is taken in this order: both
  scores positive gives hybrid; otherwise a SQL score above the document score gives
  sql; otherwise a positive document score gives document; otherwise sql. The query
  "how many employees are in engineering" is classified sql, "what are this
  candidate's skills" document, "hello" sql, and "list employees with python skills"
  is classified document: it contains no phrase of the SQL list, so its SQL score is 0.
\<close>

theorem classify_query_decision:
  "sql_score q = card {kw \<in> set sql_keywords. sublist kw (lower q)} \<and>
   doc_score q = card {kw \<in> set doc_keywords. sublist kw (lower q)} \<and>
   (0 < sql_score q \<and> 0 < doc_score q \<longrightarrow> classify_query q = ''hybrid'') \<and>
   (\<not> (0 < sql_score q \<and> 0 < doc_score q) \<and> doc_score q < sql_score q
      \<longrightarrow> classify_query q = ''sql'') \<and>
   (\<not> (0 < sql_score q \<and> 0 < doc_score q) \<and> \<not> doc_score q < sql_score q \<and> 0 < doc_score q
      \<longrightarrow> classify_query q = ''document'') \<and>
   (\<not> (0 < sql_score q \<and> 0 < doc_score q) \<and> \<not> doc_score q < sql_score q \<and> \<not> 0 < doc_score q
      \<longrightarrow> classify_query q = ''sql'') \<and>
   classify_query ''how many employees are in engineering'' = ''sql'' \<and>
   classify_query (''what are this candidate'' @ [CHR 0x27] @ ''s skills'') = ''document'' \<and>
   classify_query ''list employees with python skills'' = ''document'' \<and>
   classify_query ''hello'' = ''sql''"
proof -
  have s: "sql_score q = card {kw \<in> set sql_keywords. sublist kw (lower q)}"
    unfolding sql_score_def by (rule length_filter_card [OF distinct_sql_keywords])
  have d: "doc_score q = card {kw \<in> set doc_keywords. sublist kw (lower q)}"
    unfolding doc_score_def by (rule length_filter_card [OF distinct_doc_keywords])
  have order:
    "(0 < sql_score q \<and> 0 < doc_score q \<longrightarrow> classify_query q = ''hybrid'') \<and>
     (\<not> (0 < sql_score q \<and> 0 < doc_score q) \<and> doc_score q < sql_score q
        \<longrightarrow> classify_query q = ''sql'') \<and>
     (\<not> (0 < sql_score q \<and> 0 < doc_score q) \<and> \<not> doc_score q < sql_score q \<and> 0 < doc_score q
        \<longrightarrow> classify_query q = ''document'') \<and>
     (\<not> (0 < sql_score q \<and> 0 < doc_score q) \<and> \<not> doc_score q < sql_score q \<and> \<not> 0 < doc_score q
        \<longrightarrow> classify_query q = ''sql'')"
    by (auto simp: classify_query_def Let_def)
  have e1: "classify_query ''how many employees are in engineering'' = ''sql''"
    by code_simp
  have e2: "classify_query (''what are this candidate'' @ [CHR 0x27] @ ''s skills'') = ''document''"
    by code_simp
  have e3: "classify_query ''list employees with python skills'' = ''document''"
    by code_simp
  have e4: "classify_query ''hello'' = ''sql''"
    by code_simp
  from s d order e1 e2 e3 e4 show ?thesis by blast
qed

theorem classify_query_decision_witness:
  "classify_query ''count the python resumes'' = ''hybrid''"
proof -
  have s: "0 < sql_score ''count the python resumes''" by code_simp
  have d: "0 < doc_score ''count the python resumes''" by code_simp
  from classify_query_decision [of "''count the python resumes''"] s d
  show ?thesis by blast
qed

text \<open>
  The query "list employees with python skills" has SQL score 0 and document score 2,
  so it is not classified hybrid.
\<close>

theorem classify_query_hybrid_counterexample:
  "sql_score ''list employees with python skills'' = 0 \<and>
   doc_score ''list employees with python skills'' = 2 \<and>
   classify_query ''list employees with python skills'' \<noteq> ''hybrid''"
  by code_simp

section \<open>SQL validation\<close>

lemma validate_sql_message:
  "\<not> fst (validate_sql sql) \<Longrightarrow> snd (validate_sql sql) \<noteq> []"
  by (auto simp: validate_sql_def Let_def split: option.splits if_splits)

lemma handle_sql_query_rejected:
  assumes "respond q = Inr sql_text" and "\<not> fst (validate_sql (extract_sql sql_text))"
  shows "handle_sql_query (generate_sql respond extract_sql table_names) execute q
           = Inr [(''error'', PStr (snd (validate_sql (extract_sql sql_text))))]"
proof -
  obtain ok msg where v: "validate_sql (extract_sql sql_text) = (ok, msg)"
    by (cases "validate_sql (extract_sql sql_text)")
  with assms(2) validate_sql_message [of "extract_sql sql_text"]
  have "\<not> ok" and "msg \<noteq> []" by simp_all
  with assms(1) v show ?thesis
    by (simp add: handle_sql_query_def generate_sql_def dict_get_def Let_def)
qed

lemma handle_sql_query_accepted:
  assumes "respond q = Inr sql_text" and "fst (validate_sql (extract_sql sql_text))"
    and "execute (PStr (optimize_sql (extract_sql sql_text))) = Inr rows"
  shows "handle_sql_query (generate_sql respond extract_sql table_names) execute q
           = Inr [(''sql'', PStr (optimize_sql (extract_sql sql_text))),
                  (''data'', PList (map PDict rows)),
                  (''row_count'', PInt (int (length rows)))]"
proof -
  obtain ok msg where v: "validate_sql (extract_sql sql_text) = (ok, msg)"
    by (cases "validate_sql (extract_sql sql_text)")
  with assms(2) have "ok" by simp
  with assms(1,3) v show ?thesis
    by (simp add: handle_sql_query_def generate_sql_def dict_get_def Let_def)
qed

text \<open>
  Claim C3. A statement is accepted exactly when it is not empty, none of DROP, DELETE,
  TRUNCATE, ALTER, CREATE, UPDATE occurs anywhere in its upper-cased text, and its
  upper-cased text starts with SELECT once surrounding whitespace is removed; every
  other statement is rejected. Both tests are made on the upper-cased text, so both
  are case-insensitive: a statement that starts with select in lower case is
  accepted, and a statement that mentions DROP in any letter case is rejected. The
  whitespace removed is Python's, the no-break space included. A SELECT that reads a
  column named update\_count is rejected. A rejected statement is not executed: the
  SQL handler returns the error of the validation, whatever the executor is. An
  accepted statement is executed in the form that \<open>optimize_sql\<close> gives it: with
  LIMIT 100 added when it has no LIMIT.
\<close>

theorem validate_sql_accepts_iff:
  "(fst (validate_sql sql) \<longleftrightarrow>
      sql \<noteq> [] \<and>
      (\<forall>keyword \<in> set dangerous. \<not> sublist keyword (upper sql)) \<and>
      prefix ''SELECT'' (strip (upper sql))) \<and>
   set dangerous = {''DROP'', ''DELETE'', ''TRUNCATE'', ''ALTER'', ''CREATE'', ''UPDATE''} \<and>
   validate_sql [] = (False, ''Empty SQL query'') \<and>
   validate_sql ''SELECT update_count FROM t'' = (False, ''Dangerous operation: UPDATE'') \<and>
   validate_sql ''select 1; Drop Table x'' = (False, ''Dangerous operation: DROP'') \<and>
   validate_sql ''INSERT INTO t VALUES (1)'' = (False, ''Query must start with SELECT'') \<and>
   validate_sql ''select 1'' = (True, []) \<and>
   validate_sql ([CHR 0xA0] @ ''SELECT 1'' @ [CHR 0x85]) = (True, []) \<and>
   optimize_sql ''SELECT * FROM t'' = ''SELECT * FROM t LIMIT 100;'' \<and>
   (respond q = Inr sql_text \<and> \<not> fst (validate_sql (extract_sql sql_text)) \<longrightarrow>
      handle_sql_query (generate_sql respond extract_sql table_names) execute q
        = Inr [(''error'', PStr (snd (validate_sql (extract_sql sql_text))))]) \<and>
   (respond q = Inr sql_text \<and> fst (validate_sql (extract_sql sql_text)) \<and>
    execute (PStr (optimize_sql (extract_sql sql_text))) = Inr rows \<longrightarrow>
      handle_sql_query (generate_sql respond extract_sql table_names) execute q
        = Inr [(''sql'', PStr (optimize_sql (extract_sql sql_text))),
               (''data'', PList (map PDict rows)),
               (''row_count'', PInt (int (length rows)))])"
proof -
  have iff: "fst (validate_sql sql) \<longleftrightarrow>
      sql \<noteq> [] \<and>
      (\<forall>keyword \<in> set dangerous. \<not> sublist keyword (upper sql)) \<and>
      prefix ''SELECT'' (strip (upper sql))"
    by (auto simp: validate_sql_def Let_def find_None_iff split: option.splits
        dest: find_Some_set)
  have d: "set dangerous = {''DROP'', ''DELETE'', ''TRUNCATE'', ''ALTER'', ''CREATE'', ''UPDATE''}"
    by (simp add: dangerous_def)
  have e0: "validate_sql [] = (False, ''Empty SQL query'')"
    by (simp add: validate_sql_def)
  have e1: "validate_sql ''SELECT update_count FROM t'' = (False, ''Dangerous operation: UPDATE'')"
    by code_simp
  have e2: "validate_sql ''select 1; Drop Table x'' = (False, ''Dangerous operation: DROP'')"
    by code_simp
  have e3: "validate_sql ''INSERT INTO t VALUES (1)'' = (False, ''Query must start with SELECT'')"
    by code_simp
  have e4: "optimize_sql ''SELECT * FROM t'' = ''SELECT * FROM t LIMIT 100;''"
    by code_simp
  have e5: "validate_sql ''select 1'' = (True, [])"
    by code_simp
  have e6: "validate_sql ([CHR 0xA0] @ ''SELECT 1'' @ [CHR 0x85]) = (True, [])"
    by code_simp
  from iff d e0 e1 e2 e3 e4 e5 e6
    handle_sql_query_rejected [of respond q sql_text extract_sql table_names execute]
    handle_sql_query_accepted [of respond q sql_text extract_sql execute rows table_names]
  show ?thesis by blast
qed

theorem validate_sql_accepts_iff_witness:
  "fst (validate_sql ''  select name from employees limit 5 '')"
proof -
  have a: "''  select name from employees limit 5 '' \<noteq> []" by simp
  have b: "\<forall>keyword \<in> set dangerous.
             \<not> sublist keyword (upper ''  select name from employees limit 5 '')"
    by code_simp
  have c: "prefix ''SELECT'' (strip (upper ''  select name from employees limit 5 ''))"
    by code_simp
  from validate_sql_accepts_iff [of "''  select name from employees limit 5 ''"] a b c
  show ?thesis by blast
qed

section \<open>Table purpose\<close>

text \<open>
  Claim C7, as the source has it. The table name is lowercased and matched against the
  keyword groups in this order, the first group with a match deciding:
  employee/staff/personnel/emp gives "Employee information"; department/dept/division
  gives "Department/organizational structure"; salary/compensation/pay gives "Salary
  and compensation data"; document/file/attachment gives "Document storage"; a name
  matching none of them gives "General data table". The columns play no part. On every
  name that mentions neither emp nor dept the result is the one the specification
  gives.
\<close>

theorem infer_table_purpose_groups:
  "((\<exists>t \<in> set [''employee'', ''staff'', ''personnel'', ''emp'']. sublist t (lower n))
      \<longrightarrow> infer_table_purpose n cols = ''Employee information'') \<and>
   (\<not> (\<exists>t \<in> set [''employee'', ''staff'', ''personnel'', ''emp'']. sublist t (lower n)) \<and>
    (\<exists>t \<in> set [''department'', ''dept'', ''division'']. sublist t (lower n))
      \<longrightarrow> infer_table_purpose n cols = ''Department/organizational structure'') \<and>
   (\<not> (\<exists>t \<in> set [''employee'', ''staff'', ''personnel'', ''emp'']. sublist t (lower n)) \<and>
    \<not> (\<exists>t \<in> set [''department'', ''dept'', ''division'']. sublist t (lower n)) \<and>
    (\<exists>t \<in> set [''salary'', ''compensation'', ''pay'']. sublist t (lower n))
      \<longrightarrow> infer_table_purpose n cols = ''Salary and compensation data'') \<and>
   (\<not> (\<exists>t \<in> set [''employee'', ''staff'', ''personnel'', ''emp'']. sublist t (lower n)) \<and>
    \<not> (\<exists>t \<in> set [''department'', ''dept'', ''division'']. sublist t (lower n)) \<and>
    \<not> (\<exists>t \<in> set [''salary'', ''compensation'', ''pay'']. sublist t (lower n)) \<and>
    (\<exists>t \<in> set [''document'', ''file'', ''attachment'']. sublist t (lower n))
      \<longrightarrow> infer_table_purpose n cols = ''Document storage'') \<and>
   (\<not> (\<exists>t \<in> set [''employee'', ''staff'', ''personnel'', ''emp'',
                    ''department'', ''dept'', ''division'',
                    ''salary'', ''compensation'', ''pay'',
                    ''document'', ''file'', ''attachment'']. sublist t (lower n))
      \<longrightarrow> infer_table_purpose n cols = ''General data table'') \<and>
   (\<not> sublist ''emp'' (lower n) \<and> \<not> sublist ''dept'' (lower n)
      \<longrightarrow> infer_table_purpose n cols = spec_table_purpose n)"
proof -
  have spec: "\<not> sublist ''emp'' (lower n) \<and> \<not> sublist ''dept'' (lower n)
      \<longrightarrow> infer_table_purpose n cols = spec_table_purpose n"
    using employee_mentions_emp [of "lower n"]
    by (simp add: infer_table_purpose_def spec_table_purpose_def Let_def)
  have rest:
    "((\<exists>t \<in> set [''employee'', ''staff'', ''personnel'', ''emp'']. sublist t (lower n))
      \<longrightarrow> infer_table_purpose n cols = ''Employee information'') \<and>
   (\<not> (\<exists>t \<in> set [''employee'', ''staff'', ''personnel'', ''emp'']. sublist t (lower n)) \<and>
    (\<exists>t \<in> set [''department'', ''dept'', ''division'']. sublist t (lower n))
      \<longrightarrow> infer_table_purpose n cols = ''Department/organizational structure'') \<and>
   (\<not> (\<exists>t \<in> set [''employee'', ''staff'', ''personnel'', ''emp'']. sublist t (lower n)) \<and>
    \<not> (\<exists>t \<in> set [''department'', ''dept'', ''division'']. sublist t (lower n)) \<and>
    (\<exists>t \<in> set [''salary'', ''compensation'', ''pay'']. sublist t (lower n))
      \<longrightarrow> infer_table_purpose n cols = ''Salary and compensation data'') \<and>
   (\<not> (\<exists>t \<in> set [''employee'', ''staff'', ''personnel'', ''emp'']. sublist t (lower n)) \<and>
    \<not> (\<exists>t \<in> set [''department'', ''dept'', ''division'']. sublist t (lower n)) \<and>
    \<not> (\<exists>t \<in> set [''salary'', ''compensation'', ''pay'']. sublist t (lower n)) \<and>
    (\<exists>t \<in> set [''document'', ''file'', ''attachment'']. sublist t (lower n))
      \<longrightarrow> infer_table_purpose n cols = ''Document storage'') \<and>
   (\<not> (\<exists>t \<in> set [''employee'', ''staff'', ''personnel'', ''emp'',
                    ''department'', ''dept'', ''division'',
                    ''salary'', ''compensation'', ''pay'',
                    ''document'', ''file'', ''attachment'']. sublist t (lower n))
      \<longrightarrow> infer_table_purpose n cols = ''General data table'')"
    by (simp add: infer_table_purpose_def Let_def)
  from rest spec show ?thesis by blast
qed

theorem infer_table_purpose_groups_witness:
  "infer_table_purpose ''Staff_Payroll'' [] = ''Employee information''"
proof -
  have a: "\<exists>t \<in> set [''employee'', ''staff'', ''personnel'', ''emp''].
             sublist t (lower ''Staff_Payroll'')"
    by code_simp
  from infer_table_purpose_groups [of "''Staff_Payroll''" "[]"] a
  show ?thesis by blast
qed

text \<open>
  The abbreviations emp and dept are keywords of the source and not of the
  specification: a table named dept is a department table for the source, and a table
  named temperature an employee table.
\<close>

theorem infer_table_purpose_counterexample:
  "infer_table_purpose ''dept'' [] = ''Department/organizational structure'' \<and>
   spec_table_purpose ''dept'' = ''General data table'' \<and>
   infer_table_purpose ''temperature'' [] = ''Employee information'' \<and>
   spec_table_purpose ''temperature'' = ''General data table''"
  by code_simp

section \<open>Keyword extraction\<close>

lemma letters_disjoint: "set ascii_lowercase \<inter> set ascii_uppercase = {}"
  by code_simp

lemma letters_length: "length ascii_uppercase = length ascii_lowercase"
  by (simp add: ascii_uppercase_def ascii_lowercase_def)

lemma lower_char_other: "c \<notin> set ascii_uppercase \<Longrightarrow> lower_char c = c"
  using map_of_zip_is_None [OF letters_length, of c]
  by (simp add: lower_char_def)

lemma lower_char_not_upper: "lower_char c \<notin> set ascii_uppercase"
proof (cases "map_of (zip ascii_uppercase ascii_lowercase) c")
  case None
  then have "c \<notin> set ascii_uppercase"
    using map_of_zip_is_None [OF letters_length, of c] by simp
  then show ?thesis by (simp add: lower_char_other)
next
  case (Some d)
  then have "(c, d) \<in> set (zip ascii_uppercase ascii_lowercase)"
    by (rule map_of_SomeD)
  then have "d \<in> set ascii_lowercase"
    by (rule set_zip_rightD)
  with letters_disjoint have "d \<notin> set ascii_uppercase" by blast
  with Some show ?thesis by (simp add: lower_char_def)
qed

lemma lower_char_lowercase: "c \<in> set ascii_lowercase \<Longrightarrow> lower_char c = c"
  using letters_disjoint by (intro lower_char_other) blast

lemma lower_no_upper: "c \<in> set (lower s) \<Longrightarrow> c \<notin> set ascii_uppercase"
  by (auto simp: lower_def lower_char_not_upper)

lemma lower_lowercase: "set w \<subseteq> set ascii_lowercase \<Longrightarrow> lower w = w"
  unfolding lower_def by (rule map_idI) (auto intro: lower_char_lowercase)

lemma sublist_dropWhile: "sublist w (dropWhile P cs) \<Longrightarrow> sublist w (c # cs)"
  by (meson sublist_Cons_right sublist_order.order_trans suffix_dropWhile suffix_imp_sublist)

lemma findall_words_sound:
  "w \<in> set (findall_words prev s)
     \<Longrightarrow> 3 \<le> length w \<and> (\<forall>c \<in> set w. ascii_letter c) \<and> sublist w s"
proof (induction prev s rule: findall_words.induct)
  case (1 prev)
  then show ?case by simp
next
  case (2 prev c cs)
  let ?run = "c # takeWhile ascii_letter cs"
  let ?rest = "dropWhile ascii_letter cs"
  let ?ok = "3 \<le> length ?run \<and> (case ?rest of [] \<Rightarrow> True | d # _ \<Rightarrow> \<not> is_word_char d)"
  show ?case
  proof (cases "ascii_letter c \<and> \<not> prev")
    case False
    then have "findall_words prev (c # cs) = findall_words (is_word_char c) cs"
      by (subst findall_words.simps) (simp only: if_False)
    with "2.prems" have "w \<in> set (findall_words (is_word_char c) cs)"
      by simp
    with "2.IH"(3) [OF False]
    have "3 \<le> length w \<and> (\<forall>c \<in> set w. ascii_letter c) \<and> sublist w cs"
      by blast
    then show ?thesis by (simp add: sublist_Cons_right)
  next
    case True
    show ?thesis
    proof (cases ?ok)
      case ok: True
      have eq: "findall_words prev (c # cs) = ?run # findall_words True ?rest"
        by (subst findall_words.simps) (simp only: True ok if_True Let_def simp_thms)
      from "2.prems" have "w \<in> set (?run # findall_words True ?rest)"
        by (simp only: eq)
      then have "w = ?run \<or> w \<in> set (findall_words True ?rest)"
        by simp
      then show ?thesis
      proof
        assume w: "w = ?run"
        have "prefix ?run (c # cs)" by (simp add: takeWhile_is_prefix)
        then have "sublist ?run (c # cs)" by (rule prefix_imp_sublist)
        moreover have "\<forall>x \<in> set ?run. ascii_letter x"
          using True by (auto dest: set_takeWhileD)
        ultimately show ?thesis using ok w by simp
      next
        assume "w \<in> set (findall_words True ?rest)"
        with "2.IH"(1) [OF True refl refl ok]
        have "3 \<le> length w \<and> (\<forall>c \<in> set w. ascii_letter c) \<and> sublist w ?rest"
          by blast
        then show ?thesis by (blast intro: sublist_dropWhile)
      qed
    next
      case nok: False
      have eq: "findall_words prev (c # cs) = findall_words True ?rest"
        by (subst findall_words.simps) (simp only: True nok if_True if_False Let_def simp_thms)
      with "2.prems" have "w \<in> set (findall_words True ?rest)" by (simp only:)
      with "2.IH"(2) [OF True refl refl nok]
      have "3 \<le> length w \<and> (\<forall>c \<in> set w. ascii_letter c) \<and> sublist w ?rest"
        by blast
      then show ?thesis by (blast intro: sublist_dropWhile)
    qed
  qed
qed

lemma keyword_words_sound:
  assumes "w \<in> set (keyword_words txt)"
  shows "3 \<le> length w" and "set w \<subseteq> set ascii_lowercase" and "lower w = w"
    and "w \<notin> set stopwords" and "sublist w (lower txt)"
proof -
  from assms have w: "w \<in> set (findall_words False (lower txt))" and s: "w \<notin> set stopwords"
    by (simp_all add: keyword_words_def)
  from findall_words_sound [OF w]
  have len: "3 \<le> length w" and al: "\<forall>c \<in> set w. ascii_letter c" and sub: "sublist w (lower txt)"
    by simp_all
  have "set w \<subseteq> set (lower txt)"
    using sub by (rule set_mono_sublist)
  with al show lc: "set w \<subseteq> set ascii_lowercase"
    by (auto simp: ascii_letter_def dest: lower_no_upper)
  from lc show "lower w = w" by (rule lower_lowercase)
  from len s sub show "3 \<le> length w" "w \<notin> set stopwords" "sublist w (lower txt)"
    by simp_all
qed

lemma letter_is_word: "ascii_letter c \<Longrightarrow> is_word_char c"
  by (auto simp: ascii_letter_def is_word_char_def)

lemma token_at_Nil: "\<not> token_at prev [] w"
  by (auto simp: token_at_def)

lemma token_at_skip:
  assumes "\<not> (ascii_letter c \<and> \<not> prev)"
  shows "token_at prev (c # cs) w \<longleftrightarrow> token_at (is_word_char c) cs w"
proof
  assume "token_at prev (c # cs) w"
  then obtain pre post where s: "c # cs = pre @ w @ post" and l: "3 \<le> length w"
    and a: "\<forall>c \<in> set w. ascii_letter c"
    and b: "if pre = [] then \<not> prev else \<not> is_word_char (last pre)"
    and e: "post = [] \<or> \<not> is_word_char (hd post)"
    by (auto simp: token_at_def)
  have "pre \<noteq> []"
  proof
    assume p: "pre = []"
    with l s obtain w' where "w = c # w'" by (cases w) auto
    with a have "ascii_letter c" by simp
    with p b assms show False by simp
  qed
  then obtain pre' where p: "pre = c # pre'" using s by (cases pre) auto
  with s have s': "cs = pre' @ w @ post" by simp
  from b p have "if pre' = [] then \<not> is_word_char c else \<not> is_word_char (last pre')"
    by (simp split: if_splits)
  with s' l a e show "token_at (is_word_char c) cs w"
    unfolding token_at_def by blast
next
  assume "token_at (is_word_char c) cs w"
  then obtain pre post where s: "cs = pre @ w @ post" and l: "3 \<le> length w"
    and a: "\<forall>c \<in> set w. ascii_letter c"
    and b: "if pre = [] then \<not> is_word_char c else \<not> is_word_char (last pre)"
    and e: "post = [] \<or> \<not> is_word_char (hd post)"
    by (auto simp: token_at_def)
  from s have s': "c # cs = (c # pre) @ w @ post" by simp
  from b have "if c # pre = [] then \<not> prev else \<not> is_word_char (last (c # pre))"
    by (simp split: if_splits)
  with s' l a e show "token_at prev (c # cs) w"
    unfolding token_at_def by blast
qed

lemma token_at_run:
  assumes c: "ascii_letter c" and np: "\<not> prev"
  shows "token_at prev (c # cs) w \<longleftrightarrow>
           (3 \<le> length (c # takeWhile ascii_letter cs) \<and>
            (case dropWhile ascii_letter cs of [] \<Rightarrow> True | d # _ \<Rightarrow> \<not> is_word_char d) \<and>
            w = c # takeWhile ascii_letter cs) \<or>
           token_at True (dropWhile ascii_letter cs) w"
proof
  let ?run = "c # takeWhile ascii_letter cs"
  let ?rest = "dropWhile ascii_letter cs"
  assume "token_at prev (c # cs) w"
  then obtain pre post where s: "c # cs = pre @ w @ post" and l: "3 \<le> length w"
    and a: "\<forall>c \<in> set w. ascii_letter c"
    and b: "if pre = [] then \<not> prev else \<not> is_word_char (last pre)"
    and e: "post = [] \<or> \<not> is_word_char (hd post)"
    by (auto simp: token_at_def)
  have tk: "takeWhile ascii_letter (c # cs) = ?run" and dr: "dropWhile ascii_letter (c # cs) = ?rest"
    using c by simp_all
  show "(3 \<le> length ?run \<and>
         (case ?rest of [] \<Rightarrow> True | d # _ \<Rightarrow> \<not> is_word_char d) \<and> w = ?run) \<or>
        token_at True ?rest w"
  proof (cases "pre = []")
    case True
    from e have stop: "post = [] \<or> \<not> ascii_letter (hd post)"
      using letter_is_word by blast
    then have tp: "takeWhile ascii_letter post = []"
      by (cases post) auto
    from stop have dp: "dropWhile ascii_letter post = post"
      by (cases post) auto
    from True s have s': "c # cs = w @ post" by simp
    have "takeWhile ascii_letter (w @ post) = w"
      using a tp by (simp add: takeWhile_append2)
    with s' tk have w: "w = ?run" by simp
    have "dropWhile ascii_letter (w @ post) = post"
      using a dp by (simp add: dropWhile_append2)
    with s' dr have r: "?rest = post" by simp
    from e have "case post of [] \<Rightarrow> True | d # _ \<Rightarrow> \<not> is_word_char d"
      by (cases post) auto
    then have "case ?rest of [] \<Rightarrow> True | d # _ \<Rightarrow> \<not> is_word_char d"
      by (simp only: r)
    with w l show ?thesis by simp
  next
    case False
    with b have nl: "\<not> ascii_letter (last pre)"
      using letter_is_word by auto
    from False have lp: "last pre \<in> set pre" by simp
    have "takeWhile ascii_letter (pre @ w @ post) = takeWhile ascii_letter pre"
      using lp nl by (rule takeWhile_append1)
    with s tk have run: "?run = takeWhile ascii_letter pre" by simp
    have "dropWhile ascii_letter (pre @ w @ post) = dropWhile ascii_letter pre @ w @ post"
      using lp nl by (rule dropWhile_append1)
    with s dr have rest: "?rest = dropWhile ascii_letter pre @ w @ post" by simp
    have ne: "dropWhile ascii_letter pre \<noteq> []"
      using lp nl by (auto simp: dropWhile_eq_Nil_conv)
    have "pre = takeWhile ascii_letter pre @ dropWhile ascii_letter pre" by simp
    then have "last pre = last (dropWhile ascii_letter pre)"
      using ne by (metis last_appendR)
    with b False have "\<not> is_word_char (last (dropWhile ascii_letter pre))" by simp
    with rest ne l a e have "token_at True ?rest w"
      unfolding token_at_def by (intro exI [of _ "dropWhile ascii_letter pre"] exI [of _ post]) simp
    then show ?thesis ..
  qed
next
  let ?run = "c # takeWhile ascii_letter cs"
  let ?rest = "dropWhile ascii_letter cs"
  assume h: "(3 \<le> length ?run \<and>
         (case ?rest of [] \<Rightarrow> True | d # _ \<Rightarrow> \<not> is_word_char d) \<and> w = ?run) \<or>
        token_at True ?rest w"
  have split: "c # cs = ?run @ ?rest" by simp
  from h show "token_at prev (c # cs) w"
  proof
    assume ok: "3 \<le> length ?run \<and>
         (case ?rest of [] \<Rightarrow> True | d # _ \<Rightarrow> \<not> is_word_char d) \<and> w = ?run"
    then have e: "?rest = [] \<or> \<not> is_word_char (hd ?rest)"
      by (cases ?rest) auto
    have a: "\<forall>x \<in> set ?run. ascii_letter x"
      using c by (auto dest: set_takeWhileD)
    have "c # cs = [] @ ?run @ ?rest" by simp
    with ok e a np show ?thesis
      unfolding token_at_def by (intro exI [of _ "[]"] exI [of _ ?rest]) simp
  next
    assume "token_at True ?rest w"
    then obtain pre post where s: "?rest = pre @ w @ post" and l: "3 \<le> length w"
      and a: "\<forall>c \<in> set w. ascii_letter c"
      and b: "if pre = [] then \<not> True else \<not> is_word_char (last pre)"
      and e: "post = [] \<or> \<not> is_word_char (hd post)"
      by (auto simp: token_at_def)
    from b have ne: "pre \<noteq> []" and lw: "\<not> is_word_char (last pre)"
      by (auto split: if_splits)
    from s split have "c # cs = (?run @ pre) @ w @ post" by simp
    moreover from ne lw have "if ?run @ pre = [] then \<not> prev
                               else \<not> is_word_char (last (?run @ pre))"
      by simp
    ultimately show ?thesis
      using l a e unfolding token_at_def by blast
  qed
qed

lemma findall_words_iff: "w \<in> set (findall_words prev s) \<longleftrightarrow> token_at prev s w"
proof (induction prev s rule: findall_words.induct)
  case (1 prev)
  show ?case by (simp add: token_at_Nil)
next
  case (2 prev c cs)
  let ?run = "c # takeWhile ascii_letter cs"
  let ?rest = "dropWhile ascii_letter cs"
  let ?ok = "3 \<le> length ?run \<and> (case ?rest of [] \<Rightarrow> True | d # _ \<Rightarrow> \<not> is_word_char d)"
  show ?case
  proof (cases "ascii_letter c \<and> \<not> prev")
    case False
    then have "findall_words prev (c # cs) = findall_words (is_word_char c) cs"
      by (subst findall_words.simps) (simp only: if_False)
    then have "w \<in> set (findall_words prev (c # cs)) \<longleftrightarrow> token_at (is_word_char c) cs w"
      using "2.IH"(3) [OF False] by (simp only:)
    with token_at_skip [OF False, of cs w] show ?thesis by blast
  next
    case True
    then have c: "ascii_letter c" and np: "\<not> prev" by simp_all
    show ?thesis
    proof (cases ?ok)
      case ok: True
      have eq: "findall_words prev (c # cs) = ?run # findall_words True ?rest"
        by (subst findall_words.simps) (simp only: True ok if_True Let_def simp_thms)
      have "w \<in> set (findall_words prev (c # cs)) \<longleftrightarrow> w = ?run \<or> token_at True ?rest w"
        using "2.IH"(1) [OF True refl refl ok] by (simp only: eq list.set insert_iff)
      with token_at_run [OF c np, of cs w] ok show ?thesis by blast
    next
      case nok: False
      have eq: "findall_words prev (c # cs) = findall_words True ?rest"
        by (subst findall_words.simps) (simp only: True nok if_True if_False Let_def simp_thms)
      have "w \<in> set (findall_words prev (c # cs)) \<longleftrightarrow> token_at True ?rest w"
        using "2.IH"(2) [OF True refl refl nok] by (simp only: eq)
      with token_at_run [OF c np, of cs w] nok show ?thesis by blast
    qed
  qed
qed

lemma token_at_start:
  "token_at False s w \<longleftrightarrow>
     (\<exists>pre post. s = pre @ w @ post \<and> 3 \<le> length w \<and> (\<forall>c \<in> set w. ascii_letter c) \<and>
        (pre = [] \<or> \<not> is_word_char (last pre)) \<and>
        (post = [] \<or> \<not> is_word_char (hd post)))"
proof -
  have "\<And>pre. (if pre = [] then \<not> False else \<not> is_word_char (last pre))
                 \<longleftrightarrow> (pre = [] \<or> \<not> is_word_char (last pre))"
    by simp
  then show ?thesis by (simp only: token_at_def)
qed

lemma extract_keywords_iff:
  "w \<in> extract_keywords txt \<longleftrightarrow>
     w \<notin> set stopwords \<and>
     (\<exists>pre post. lower txt = pre @ w @ post \<and> 3 \<le> length w \<and>
        (\<forall>c \<in> set w. ascii_letter c) \<and>
        (pre = [] \<or> \<not> is_word_char (last pre)) \<and>
        (post = [] \<or> \<not> is_word_char (hd post)))"
proof -
  have "w \<in> extract_keywords txt \<longleftrightarrow>
          w \<in> set (findall_words False (lower txt)) \<and> w \<notin> set stopwords \<and> 2 < length w"
    by (simp only: extract_keywords_def keyword_words_def set_filter mem_Collect_eq)
  also have "\<dots> \<longleftrightarrow> token_at False (lower txt) w \<and> w \<notin> set stopwords \<and> 2 < length w"
    by (simp only: findall_words_iff)
  also have "\<dots> \<longleftrightarrow> token_at False (lower txt) w \<and> w \<notin> set stopwords"
    using token_at_def by auto
  finally show ?thesis
    by (simp only: token_at_start conj_commute)
qed

text \<open>
  Claim C5. The keywords extracted from a text are exactly the words that are no
  stopwords and stand in the lowercased text as a run of at least three ASCII letters
  between two word boundaries: before the run comes the start of the text or a
  character that is no word character, after it the end of the text or a character
  that is no word character. So every keyword is a run of at least three lowercase
  letters of the lowercased text and no stopword, no shorter token is a keyword, and
  every such run that is no stopword is kept, a run of exactly three letters as well.
  The result is a set, so a word that occurs several times is one keyword. The text
  "The Employee has Python skills" gives exactly employee, python and skills.
  Extraction is a function of the text, so repeated calls on the same input give the
  same set. A query without keywords makes \<open>search\<close> return the empty list.
\<close>

theorem extract_keywords_tokens:
  "(w \<in> extract_keywords txt \<longleftrightarrow>
      w \<notin> set stopwords \<and>
      (\<exists>pre post. lower txt = pre @ w @ post \<and> 3 \<le> length w \<and>
         (\<forall>c \<in> set w. ascii_letter c) \<and>
         (pre = [] \<or> \<not> is_word_char (last pre)) \<and>
         (post = [] \<or> \<not> is_word_char (hd post)))) \<and>
   (\<forall>w \<in> extract_keywords txt.
      3 \<le> length w \<and> set w \<subseteq> set ascii_lowercase \<and> lower w = w \<and>
      w \<notin> set stopwords \<and> sublist w (lower txt)) \<and>
   extract_keywords ''The Employee has Python skills'' = {''employee'', ''python'', ''skills''} \<and>
   extract_keywords ''python Python PYTHON, to be or not'' = {''python''} \<and>
   extract_keywords ''SQL and AWS skills'' = {''sql'', ''aws'', ''skills''} \<and>
   extract_keywords (''caf'' @ [CHR 0xE9] @ '' bar abc_def abc1 x-ray'') = {''bar'', ''ray''} \<and>
   (extract_keywords query = {} \<longrightarrow> search iter st query top_k = [])"
proof -
  have a: "\<forall>w \<in> extract_keywords txt.
      3 \<le> length w \<and> set w \<subseteq> set ascii_lowercase \<and> lower w = w \<and>
      w \<notin> set stopwords \<and> sublist w (lower txt)"
    unfolding extract_keywords_def using keyword_words_sound [of _ "txt"] by blast
  have b: "extract_keywords ''The Employee has Python skills''
             = {''employee'', ''python'', ''skills''}"
    unfolding extract_keywords_def by code_simp
  have c: "extract_keywords ''python Python PYTHON, to be or not'' = {''python''}"
    unfolding extract_keywords_def by code_simp
  have c2: "extract_keywords ''SQL and AWS skills'' = {''sql'', ''aws'', ''skills''}"
    unfolding extract_keywords_def by code_simp
  have c3: "extract_keywords (''caf'' @ [CHR 0xE9] @ '' bar abc_def abc1 x-ray'')
              = {''bar'', ''ray''}"
    unfolding extract_keywords_def by code_simp
  have d: "extract_keywords query = {} \<longrightarrow> search iter st query top_k = []"
    by (simp add: search_def)
  note i = extract_keywords_iff [of w "txt"]
  show ?thesis
    apply (intro conjI)
          apply (rule i)
         apply (rule a)
        apply (rule b)
       apply (rule c)
      apply (rule c2)
     apply (rule c3)
    apply (rule d)
    done
qed

theorem extract_keywords_tokens_witness:
  "''sql'' \<in> extract_keywords ''SQL and AWS skills'' \<and>
   search remdups example_index ''Where is the ...'' 5 = [] \<and>
   3 \<le> length ''employee'' \<and> ''employee'' \<notin> set stopwords"
proof -
  have n: "''sql'' \<notin> set stopwords" by code_simp
  have s: "lower ''SQL and AWS skills'' = [] @ ''sql'' @ '' and aws skills''" by code_simp
  have l: "\<forall>c \<in> set ''sql''. ascii_letter c" by code_simp
  have p: "\<not> is_word_char (hd '' and aws skills'')" by code_simp
  have x: "\<exists>pre post. lower ''SQL and AWS skills'' = pre @ ''sql'' @ post \<and> 3 \<le> length ''sql'' \<and>
         (\<forall>c \<in> set ''sql''. ascii_letter c) \<and>
         (pre = [] \<or> \<not> is_word_char (last pre)) \<and>
         (post = [] \<or> \<not> is_word_char (hd post))"
    apply (rule exI [of _ "[]"])
    apply (rule exI [of _ "'' and aws skills''"])
    apply (intro conjI)
        apply (rule s)
       apply simp
      apply (rule l)
     apply (rule disjI1, rule refl)
    apply (rule disjI2, rule p)
    done
  have e: "extract_keywords ''Where is the ...'' = {}"
    unfolding extract_keywords_def by code_simp
  have m: "''employee'' \<in> extract_keywords ''The Employee has Python skills''"
    unfolding extract_keywords_def by code_simp
  note t1 = extract_keywords_tokens
         [of "''sql''" "''SQL and AWS skills''" "''Where is the ...''" remdups example_index 5]
  from t1 have i: "''sql'' \<in> extract_keywords ''SQL and AWS skills'' \<longleftrightarrow>
      ''sql'' \<notin> set stopwords \<and>
      (\<exists>pre post. lower ''SQL and AWS skills'' = pre @ ''sql'' @ post \<and> 3 \<le> length ''sql'' \<and>
         (\<forall>c \<in> set ''sql''. ascii_letter c) \<and>
         (pre = [] \<or> \<not> is_word_char (last pre)) \<and>
         (post = [] \<or> \<not> is_word_char (hd post)))"
    by (rule conjunct1)
  from i n x have a: "''sql'' \<in> extract_keywords ''SQL and AWS skills''"
    by (simp only: simp_thms)
  from t1 have "extract_keywords ''Where is the ...'' = {}
                  \<longrightarrow> search remdups example_index ''Where is the ...'' 5 = []"
    by (elim conjE)
  with e have b: "search remdups example_index ''Where is the ...'' 5 = []"
    by (rule rev_mp)
  note t2 = extract_keywords_tokens
         [of "''sql''" "''The Employee has Python skills''" "''Where is the ...''" remdups
             example_index 5]
  from t2 have "\<forall>w \<in> extract_keywords ''The Employee has Python skills''.
      3 \<le> length w \<and> set w \<subseteq> set ascii_lowercase \<and> lower w = w \<and>
      w \<notin> set stopwords \<and> sublist w (lower ''The Employee has Python skills'')"
    by (elim conjE)
  with m have c: "3 \<le> length ''employee'' \<and> ''employee'' \<notin> set stopwords"
    by (auto dest!: bspec [where x = "''employee''"])
  from a b c show ?thesis by (intro conjI) (simp_all only: simp_thms)
qed


section \<open>Ingestion\<close>

lemma posting_index_append:
  "posting (index_append n kw idx) k = posting idx k @ (if k = lower kw then [n] else [])"
  by (simp add: index_append_def posting_def)

lemma posting_fold_index_append:
  "posting (fold (index_append n) kws idx) k
     = posting idx k @ replicate (count_list (map lower kws) k) n"
proof (induction kws arbitrary: idx)
  case Nil
  show ?case by simp
next
  case (Cons kw kws)
  show ?case
    by (simp add: Cons.IH posting_index_append replicate_app_Cons_same)
qed

lemma process_file_Inl:
  "extract_text rd p = Inl e \<Longrightarrow> process_file iter rd st p = Inl e"
  by (simp add: process_file_def)

lemma process_file_Inl_iff:
  "(process_file iter rd st p = Inl e) = (extract_text rd p = Inl e)"
  by (simp add: process_file_def Let_def split: sum.splits)

lemma process_file_Inr:
  assumes "process_file iter rd st p = Inr (st', s)"
  obtains t where "extract_text rd p = Inr t"
    and "documents st' = documents st @
           [\<lparr> d_id = length (documents st), d_file = basename p, d_text = t,
              d_keywords = iter (keyword_words t),
              d_preview = (if length t > 200 then take 200 t @ ''...'' else t) \<rparr>]"
    and "keyword_index st' =
           fold (index_append (length (documents st))) (iter (keyword_words t)) (keyword_index st)"
    and "s = \<lparr> s_file = basename p, keywords_found = length (iter (keyword_words t)) \<rparr>"
  using assms by (auto simp: process_file_def Let_def split: sum.splits)

lemma process_files_append:
  "process_files iter rd (ps @ qs) acc = process_files iter rd qs (process_files iter rd ps acc)"
proof (induction ps arbitrary: acc)
  case Nil
  show ?case by (cases acc) simp
next
  case (Cons p ps)
  show ?case by (cases acc) (simp add: Cons.IH split: sum.splits prod.splits)
qed

lemma process_files_failed_shift:
  "process_files iter rd qs (st, res\<lparr> failed := failed res + c \<rparr>)
     = (case process_files iter rd qs (st, res) of
          (st', res') \<Rightarrow> (st', res'\<lparr> failed := failed res' + c \<rparr>))"
proof (induction qs arbitrary: st res)
  case Nil
  show ?case by simp
next
  case (Cons q qs)
  show ?case
  proof (cases "process_file iter rd st q")
    case (Inl e)
    let ?X = "res\<lparr>failed := failed res + 1\<rparr>"
    have eq: "(res\<lparr>failed := failed res + c\<rparr>)\<lparr>failed := failed (res\<lparr>failed := failed res + c\<rparr>) + 1\<rparr>
                = ?X\<lparr>failed := failed ?X + c\<rparr>"
      by (cases res) simp
    have "process_files iter rd (q # qs) (st, res\<lparr>failed := failed res + c\<rparr>)
            = process_files iter rd qs (st, ?X\<lparr>failed := failed ?X + c\<rparr>)"
      by (simp only: process_files.simps Inl sum.case eq)
    also have "\<dots> = (case process_files iter rd qs (st, ?X) of
                        (st', res') \<Rightarrow> (st', res'\<lparr> failed := failed res' + c \<rparr>))"
      by (rule Cons.IH)
    also have "process_files iter rd qs (st, ?X) = process_files iter rd (q # qs) (st, res)"
      by (simp only: process_files.simps Inl sum.case)
    finally show ?thesis .
  next
    case (Inr r)
    obtain st' s where r: "r = (st', s)" by (cases r)
    let ?X = "res\<lparr>processed := processed res + 1, r_documents := r_documents res @ [s]\<rparr>"
    have eq: "(res\<lparr>failed := failed res + c\<rparr>)
                \<lparr>processed := processed (res\<lparr>failed := failed res + c\<rparr>) + 1,
                 r_documents := r_documents (res\<lparr>failed := failed res + c\<rparr>) @ [s]\<rparr>
                = ?X\<lparr>failed := failed ?X + c\<rparr>"
      by (cases res) simp
    have "process_files iter rd (q # qs) (st, res\<lparr>failed := failed res + c\<rparr>)
            = process_files iter rd qs (st', ?X\<lparr>failed := failed ?X + c\<rparr>)"
      by (simp only: process_files.simps Inr r sum.case prod.case eq)
    also have "\<dots> = (case process_files iter rd qs (st', ?X) of
                        (st', res') \<Rightarrow> (st', res'\<lparr> failed := failed res' + c \<rparr>))"
      by (rule Cons.IH)
    also have "process_files iter rd qs (st', ?X) = process_files iter rd (q # qs) (st, res)"
      by (simp only: process_files.simps Inr r sum.case prod.case)
    finally show ?thesis .
  qed
qed

lemma process_files_counts:
  "process_files iter rd ps (st, res) = (st', res') \<Longrightarrow>
     processed res' = processed res + length (filter (\<lambda>p. \<not> isl (extract_text rd p)) ps) \<and>
     failed res' = failed res + length (filter (\<lambda>p. isl (extract_text rd p)) ps) \<and>
     length (r_documents res') =
       length (r_documents res) + length (filter (\<lambda>p. \<not> isl (extract_text rd p)) ps) \<and>
     length (documents st') =
       length (documents st) + length (filter (\<lambda>p. \<not> isl (extract_text rd p)) ps) \<and>
     total_documents res' = total_documents res"
proof (induction ps arbitrary: st res)
  case Nil
  then show ?case by simp
next
  case (Cons p ps)
  show ?case
  proof (cases "process_file iter rd st p")
    case (Inl e)
    then have x: "extract_text rd p = Inl e" by (simp add: process_file_Inl_iff)
    from Cons.prems Inl
    have "process_files iter rd ps (st, res\<lparr>failed := failed res + 1\<rparr>) = (st', res')"
      by simp
    from Cons.IH [OF this] x show ?thesis by simp
  next
    case (Inr r)
    obtain st1 s where r: "r = (st1, s)" by (cases r)
    from Inr r obtain t where x: "extract_text rd p = Inr t"
      and d: "length (documents st1) = length (documents st) + 1"
      by (auto elim!: process_file_Inr)
    from Cons.prems Inr r
    have "process_files iter rd ps
            (st1, res\<lparr>processed := processed res + 1, r_documents := r_documents res @ [s]\<rparr>)
          = (st', res')"
      by simp
    from Cons.IH [OF this] x d show ?thesis by simp
  qed
qed


lemma index_inv_empty: "ids_dense empty_processor" "postings_valid empty_processor"
  "postings_distinct empty_processor"
  by (simp_all add: ids_dense_def postings_valid_def postings_distinct_def
        empty_processor_def posting_def)

lemma process_file_inv:
  assumes "process_file iter rd st p = Inr (st', s)"
  shows "\<exists>doc. documents st' = documents st @ [doc] \<and> d_id doc = length (documents st)"
    and "\<forall>k. prefix (posting (keyword_index st) k) (posting (keyword_index st') k)"
    and "\<forall>k. set (posting (keyword_index st') k)
              \<subseteq> insert (length (documents st)) (set (posting (keyword_index st) k))"
proof -
  from assms obtain t where
    d: "documents st' = documents st @
           [\<lparr> d_id = length (documents st), d_file = basename p, d_text = t,
              d_keywords = iter (keyword_words t),
              d_preview = (if length t > 200 then take 200 t @ ''...'' else t) \<rparr>]"
    and i: "keyword_index st' =
           fold (index_append (length (documents st))) (iter (keyword_words t)) (keyword_index st)"
    by (rule process_file_Inr)
  from d show "\<exists>doc. documents st' = documents st @ [doc] \<and> d_id doc = length (documents st)"
    by simp
  from i show "\<forall>k. prefix (posting (keyword_index st) k) (posting (keyword_index st') k)"
    by (simp add: posting_fold_index_append)
  from i show "\<forall>k. set (posting (keyword_index st') k)
              \<subseteq> insert (length (documents st)) (set (posting (keyword_index st) k))"
    by (auto simp: posting_fold_index_append)
qed

lemma process_file_ids_dense:
  assumes "process_file iter rd st p = Inr (st', s)" and "ids_dense st"
  shows "ids_dense st'"
proof -
  from process_file_inv(1) [OF assms(1)] obtain doc where
    d: "documents st' = documents st @ [doc]" and n: "d_id doc = length (documents st)"
    by blast
  show ?thesis
    unfolding ids_dense_def
  proof (intro allI impI)
    fix i assume "i < length (documents st')"
    with d have "i < length (documents st) \<or> i = length (documents st)" by auto
    then show "d_id (documents st' ! i) = i"
      using d n assms(2) by (auto simp: ids_dense_def nth_append)
  qed
qed

lemma process_file_postings_valid:
  assumes "process_file iter rd st p = Inr (st', s)" and "postings_valid st"
  shows "postings_valid st'"
proof -
  from process_file_inv(1) [OF assms(1)]
  have len: "length (documents st') = Suc (length (documents st))" by auto
  show ?thesis
    unfolding postings_valid_def
  proof (intro allI ballI)
    fix k d assume "d \<in> set (posting (keyword_index st') k)"
    with process_file_inv(3) [OF assms(1)]
    have "d = length (documents st) \<or> d \<in> set (posting (keyword_index st) k)" by blast
    with assms(2) len show "d < length (documents st')"
      by (auto simp: postings_valid_def less_Suc_eq)
  qed
qed

lemma process_files_inv:
  assumes "process_files iter rd ps (st, res) = (st', res')"
  shows "prefix (documents st) (documents st')"
    and "\<forall>k. prefix (posting (keyword_index st) k) (posting (keyword_index st') k)"
    and "ids_dense st \<Longrightarrow> ids_dense st'"
    and "postings_valid st \<Longrightarrow> postings_valid st'"
proof -
  have "prefix (documents st) (documents st') \<and>
        (\<forall>k. prefix (posting (keyword_index st) k) (posting (keyword_index st') k)) \<and>
        (ids_dense st \<longrightarrow> ids_dense st') \<and> (postings_valid st \<longrightarrow> postings_valid st')"
    using assms
  proof (induction ps arbitrary: st res)
    case Nil
    then show ?case by simp
  next
    case (Cons p ps)
    show ?case
    proof (cases "process_file iter rd st p")
      case (Inl e)
      with Cons.prems
      have "process_files iter rd ps (st, res\<lparr>failed := failed res + 1\<rparr>) = (st', res')"
        by simp
      from Cons.IH [OF this] show ?thesis .
    next
      case (Inr r)
      obtain st1 s where r: "r = (st1, s)" by (cases r)
      with Inr have pf: "process_file iter rd st p = Inr (st1, s)" by simp
      from Cons.prems pf
      have "process_files iter rd ps
              (st1, res\<lparr>processed := processed res + 1, r_documents := r_documents res @ [s]\<rparr>)
            = (st', res')"
        by simp
      from Cons.IH [OF this]
      have ih: "prefix (documents st1) (documents st')"
        "\<forall>k. prefix (posting (keyword_index st1) k) (posting (keyword_index st') k)"
        "ids_dense st1 \<longrightarrow> ids_dense st'" "postings_valid st1 \<longrightarrow> postings_valid st'"
        by simp_all
      from process_file_inv(1) [OF pf] have "prefix (documents st) (documents st1)"
        by auto
      with ih(1) have a: "prefix (documents st) (documents st')"
        by (blast intro: prefix_order.order_trans)
      have b: "\<forall>k. prefix (posting (keyword_index st) k) (posting (keyword_index st') k)"
        using process_file_inv(2) [OF pf] ih(2) by (blast intro: prefix_order.order_trans)
      from a b ih(3,4) process_file_ids_dense [OF pf] process_file_postings_valid [OF pf]
      show ?thesis by blast
    qed
  qed
  then show "prefix (documents st) (documents st')"
    and "\<forall>k. prefix (posting (keyword_index st) k) (posting (keyword_index st') k)"
    and "ids_dense st \<Longrightarrow> ids_dense st'"
    and "postings_valid st \<Longrightarrow> postings_valid st'"
    by simp_all
qed

lemma process_documents_unfold:
  "process_documents iter rd st ps = (st', res) \<longleftrightarrow>
     (\<exists>res0. process_files iter rd ps
                (st, \<lparr> processed = 0, failed = 0, total_documents = 0, r_documents = [] \<rparr>)
              = (st', res0) \<and> res = res0\<lparr> total_documents := length (documents st') \<rparr>)"
  by (auto simp: process_documents_def split: prod.splits)

lemma extract_text_unsupported:
  "file_ext p \<notin> {''pdf'', ''docx'', ''txt''}
     \<Longrightarrow> extract_text rd p = Inl (ValueError (''Unsupported file type: '' @ file_ext p))"
  by (simp add: extract_text_def Let_def)

lemma process_documents_single_failure:
  assumes "isl (extract_text rd p)"
  shows "process_documents iter rd st [p] =
           (st, \<lparr>processed = 0, failed = 1, total_documents = length (documents st),
                 r_documents = []\<rparr>)"
proof -
  from assms obtain e where "extract_text rd p = Inl e" by (cases "extract_text rd p") auto
  then have "process_file iter rd st p = Inl e" by (rule process_file_Inl)
  then show ?thesis by (simp add: process_documents_def)
qed

lemma process_documents_skip_failure:
  assumes "isl (extract_text rd p)"
  shows "process_documents iter rd st (ps @ p # qs) =
           (case process_documents iter rd st (ps @ qs) of
              (st', res) \<Rightarrow> (st', res\<lparr>failed := failed res + 1\<rparr>))"
proof -
  from assms obtain e where "extract_text rd p = Inl e" by (cases "extract_text rd p") auto
  then have f: "\<And>st. process_file iter rd st p = Inl e" by (rule process_file_Inl)
  let ?r0 = "\<lparr>processed = 0, failed = 0, total_documents = 0, r_documents = []\<rparr>"
  obtain st1 r1 where a: "process_files iter rd ps (st, ?r0) = (st1, r1)"
    by (cases "process_files iter rd ps (st, ?r0)")
  obtain st2 r2 where b: "process_files iter rd qs (st1, r1) = (st2, r2)"
    by (cases "process_files iter rd qs (st1, r1)")
  have "process_files iter rd (ps @ p # qs) (st, ?r0)
          = process_files iter rd qs (st1, r1\<lparr>failed := failed r1 + 1\<rparr>)"
    by (simp add: process_files_append a f)
  also have "\<dots> = (st2, r2\<lparr>failed := failed r2 + 1\<rparr>)"
    using process_files_failed_shift [of iter rd qs st1 r1 1] b by simp
  finally have c: "process_files iter rd (ps @ p # qs) (st, ?r0)
                     = (st2, r2\<lparr>failed := failed r2 + 1\<rparr>)" .
  have d: "process_files iter rd (ps @ qs) (st, ?r0) = (st2, r2)"
    by (simp add: process_files_append a b)
  show ?thesis
    unfolding process_documents_def c d by (cases r2) simp
qed

lemma process_files_summaries:
  "process_files iter rd ps (st, res) = (st', res') \<Longrightarrow>
     r_documents res' =
       r_documents res @
       map (\<lambda>p. \<lparr> s_file = basename p,
                  keywords_found = length (iter (keyword_words (projr (extract_text rd p)))) \<rparr>)
           (filter (\<lambda>p. \<not> isl (extract_text rd p)) ps)"
proof (induction ps arbitrary: st res)
  case Nil
  then show ?case by simp
next
  case (Cons p ps)
  show ?case
  proof (cases "process_file iter rd st p")
    case (Inl e)
    then have x: "extract_text rd p = Inl e" by (simp add: process_file_Inl_iff)
    from Cons.prems Inl
    have "process_files iter rd ps (st, res\<lparr>failed := failed res + 1\<rparr>) = (st', res')"
      by simp
    from Cons.IH [OF this] x show ?thesis by simp
  next
    case (Inr r)
    obtain st1 s where r: "r = (st1, s)" by (cases r)
    from Inr r obtain t where x: "extract_text rd p = Inr t"
      and s: "s = \<lparr> s_file = basename p, keywords_found = length (iter (keyword_words t)) \<rparr>"
      by (auto elim!: process_file_Inr)
    from Cons.prems Inr r
    have "process_files iter rd ps
            (st1, res\<lparr>processed := processed res + 1, r_documents := r_documents res @ [s]\<rparr>)
          = (st', res')"
      by simp
    from Cons.IH [OF this] x s show ?thesis by simp
  qed
qed

lemma process_documents_counts:
  assumes "process_documents iter rd st paths = (st', res)"
  shows "processed res = length (filter (\<lambda>p. \<not> isl (extract_text rd p)) paths)"
    and "failed res = length (filter (\<lambda>p. isl (extract_text rd p)) paths)"
    and "processed res + failed res = length paths"
    and "total_documents res = length (documents st')"
    and "length (documents st') = length (documents st) + processed res"
    and "length (r_documents res) = processed res"
    and "r_documents res =
           map (\<lambda>p. \<lparr> s_file = basename p,
                      keywords_found =
                        length (iter (keyword_words (projr (extract_text rd p)))) \<rparr>)
               (filter (\<lambda>p. \<not> isl (extract_text rd p)) paths)"
proof -
  let ?r0 = "\<lparr>processed = 0, failed = 0, total_documents = 0, r_documents = []\<rparr>"
  from assms obtain res0 where
    pf: "process_files iter rd paths (st, ?r0) = (st', res0)" and
    r: "res = res0\<lparr> total_documents := length (documents st') \<rparr>"
    by (auto simp: process_documents_unfold)
  from process_files_counts [OF pf] r
  show "processed res = length (filter (\<lambda>p. \<not> isl (extract_text rd p)) paths)"
    and "failed res = length (filter (\<lambda>p. isl (extract_text rd p)) paths)"
    and "total_documents res = length (documents st')"
    and "length (documents st') = length (documents st) + processed res"
    and "length (r_documents res) = processed res"
    by simp_all
  from process_files_summaries [OF pf] r
  show "r_documents res =
           map (\<lambda>p. \<lparr> s_file = basename p,
                      keywords_found =
                        length (iter (keyword_words (projr (extract_text rd p)))) \<rparr>)
               (filter (\<lambda>p. \<not> isl (extract_text rd p)) paths)"
    by simp
  from process_files_counts [OF pf] r
  have "processed res + failed res =
          length (filter (\<lambda>p. \<not> isl (extract_text rd p)) paths)
          + length (filter (\<lambda>p. isl (extract_text rd p)) paths)"
    by simp
  also have "\<dots> = length paths"
    using sum_length_filter_compl [of "\<lambda>p. isl (extract_text rd p)" paths] by simp
  finally show "processed res + failed res = length paths" .
qed

text \<open>
  Claim C6. A path whose extension is none of pdf, docx and txt makes the text
  extraction raise, and the handler of the loop catches what the extraction raises.
  A file whose extraction fails adds one to the failure count and changes nothing
  else: a batch with such a file in it leaves the processor in the state, and reports
  the result, of the batch without the file, the failure count apart. Every batch
  runs to its end: it reports as processed the number of files whose extraction
  succeeds, as failed the number of the others, the number of documents then stored,
  and an outcome list with one entry, the file name and the number of its keywords,
  for every processed file in the order of the batch. The model has no path on which
  \<open>process_documents\<close> raises.
\<close>

theorem process_documents_partial_failure:
  "(file_ext p \<notin> {''pdf'', ''docx'', ''txt''} \<longrightarrow>
      extract_text rd p = Inl (ValueError (''Unsupported file type: '' @ file_ext p))) \<and>
   (isl (extract_text rd p) \<longrightarrow>
      process_documents iter rd st [p] =
        (st, \<lparr>processed = 0, failed = 1, total_documents = length (documents st),
              r_documents = []\<rparr>) \<and>
      process_documents iter rd st (ps @ p # qs) =
        (case process_documents iter rd st (ps @ qs) of
           (st', res) \<Rightarrow> (st', res\<lparr>failed := failed res + 1\<rparr>))) \<and>
   (\<forall>st' res. process_documents iter rd st paths = (st', res) \<longrightarrow>
      processed res = length (filter (\<lambda>p. \<not> isl (extract_text rd p)) paths) \<and>
      failed res = length (filter (\<lambda>p. isl (extract_text rd p)) paths) \<and>
      processed res + failed res = length paths \<and>
      total_documents res = length (documents st') \<and>
      length (documents st') = length (documents st) + processed res \<and>
      length (r_documents res) = processed res \<and>
      r_documents res =
        map (\<lambda>p. \<lparr> s_file = basename p,
                   keywords_found =
                     length (iter (keyword_words (projr (extract_text rd p)))) \<rparr>)
            (filter (\<lambda>p. \<not> isl (extract_text rd p)) paths))"
  using extract_text_unsupported [of p rd]
    process_documents_single_failure [of rd p iter st]
    process_documents_skip_failure [of rd p iter st ps qs]
    process_documents_counts [of iter rd st paths]
  by blast


theorem process_documents_partial_failure_witness:
  "process_documents remdups example_readers empty_processor [''notes.md'']
     = (empty_processor, \<lparr>processed = 0, failed = 1, total_documents = 0, r_documents = []\<rparr>) \<and>
   snd (process_documents remdups example_readers empty_processor
          [''a.txt'', ''notes.md'', ''b.txt''])
     = (snd (process_documents remdups example_readers empty_processor [''a.txt'', ''b.txt'']))
         \<lparr>failed := 1\<rparr>"
proof -
  have x: "file_ext ''notes.md'' \<notin> {''pdf'', ''docx'', ''txt''}" by code_simp
  have l: "length (documents empty_processor) = 0" by (simp add: empty_processor_def)
  have f: "failed (snd (process_documents remdups example_readers empty_processor
                          [''a.txt'', ''b.txt''])) = 0"
    by code_simp
  from process_documents_partial_failure
         [of "''notes.md''" example_readers remdups empty_processor "[''a.txt'']" "[''b.txt'']"] x l f
  show ?thesis by (auto split: prod.splits)
qed

lemma count_list_distinct:
  "distinct xs \<Longrightarrow> count_list xs x = (if x \<in> set xs then 1 else 0)"
  by (induction xs) auto

lemma iterates_keywords:
  assumes "iterates iter"
  shows "distinct (iter (keyword_words t))"
    and "set (iter (keyword_words t)) = extract_keywords t"
    and "map lower (iter (keyword_words t)) = iter (keyword_words t)"
proof -
  from assms show d: "distinct (iter (keyword_words t))"
    and s: "set (iter (keyword_words t)) = extract_keywords t"
    by (simp_all add: iterates_def extract_keywords_def)
  have "\<forall>w \<in> set (iter (keyword_words t)). lower w = w"
    using s keyword_words_sound(3) [of _ t] by (auto simp: extract_keywords_def)
  then show "map lower (iter (keyword_words t)) = iter (keyword_words t)"
    by (simp add: map_idI)
qed

lemma process_file_success:
  "extract_text rd p = Inr t \<Longrightarrow>
   process_file iter rd st p =
     Inr (\<lparr> documents = documents st @
               [\<lparr> d_id = length (documents st), d_file = basename p, d_text = t,
                  d_keywords = iter (keyword_words t),
                  d_preview = (if length t > 200 then take 200 t @ ''...'' else t) \<rparr>],
            keyword_index =
              fold (index_append (length (documents st))) (iter (keyword_words t))
                (keyword_index st) \<rparr>,
          \<lparr> s_file = basename p, keywords_found = length (iter (keyword_words t)) \<rparr>)"
  by (simp add: process_file_def Let_def)

lemma reingest:
  assumes it: "iterates iter" and x: "extract_text rd p = Inr t"
    and pd: "process_documents iter rd st [p, p] = (st2, res2)"
  shows "\<exists>d1 d2. documents st2 = documents st @ [d1, d2] \<and>
            d_id d1 = length (documents st) \<and> d_id d2 = length (documents st) + 1 \<and>
            d_file d1 = d_file d2 \<and> d_text d1 = t \<and> d_text d2 = t \<and>
            d_keywords d1 = d_keywords d2"
    and "\<forall>k \<in> extract_keywords t.
            posting (keyword_index st2) k =
              posting (keyword_index st) k @ [length (documents st), length (documents st) + 1]"
proof -
  let ?n = "length (documents st)"
  let ?kws = "iter (keyword_words t)"
  let ?doc = "\<lambda>i. \<lparr> d_id = i, d_file = basename p, d_text = t, d_keywords = ?kws,
                  d_preview = (if length t > 200 then take 200 t @ ''...'' else t) \<rparr>"
  from pd have
    docs: "documents st2 = documents st @ [?doc ?n, ?doc (?n + 1)]" and
    idx: "keyword_index st2 =
            fold (index_append (?n + 1)) ?kws (fold (index_append ?n) ?kws (keyword_index st))"
    by (auto simp: process_documents_def process_file_success [OF x])
  from docs show "\<exists>d1 d2. documents st2 = documents st @ [d1, d2] \<and>
            d_id d1 = ?n \<and> d_id d2 = ?n + 1 \<and>
            d_file d1 = d_file d2 \<and> d_text d1 = t \<and> d_text d2 = t \<and>
            d_keywords d1 = d_keywords d2"
    by simp
  show "\<forall>k \<in> extract_keywords t.
            posting (keyword_index st2) k = posting (keyword_index st) k @ [?n, ?n + 1]"
  proof
    fix k assume "k \<in> extract_keywords t"
    with iterates_keywords [OF it, of t]
    have "count_list (map lower ?kws) k = 1"
      by (simp add: count_list_distinct)
    then show "posting (keyword_index st2) k = posting (keyword_index st) k @ [?n, ?n + 1]"
      by (simp add: idx posting_fold_index_append)
  qed
qed

text \<open>
  Claim C9. On a processor whose documents carry their positions as ids and whose
  posting lists hold positions of the document list only (the empty processor is
  one), a file that is ingested receives the number of documents stored before it as
  its id; a batch leaves the old documents at the front of the document list and the
  old entries at the front of every posting list, and keeps both properties of the
  processor. Ingesting the same file twice stores two documents with consecutive ids
  and appends both ids to the posting list of every keyword of the file.
\<close>

theorem ingestion_appends_dense_ids:
  assumes "ids_dense st" and "postings_valid st"
  shows
    "(\<forall>st' s. process_file iter rd st p = Inr (st', s) \<longrightarrow>
        (\<exists>doc. documents st' = documents st @ [doc] \<and> d_id doc = length (documents st))) \<and>
     (\<forall>st' res. process_documents iter rd st paths = (st', res) \<longrightarrow>
        prefix (documents st) (documents st') \<and>
        (\<forall>k. prefix (posting (keyword_index st) k) (posting (keyword_index st') k)) \<and>
        ids_dense st' \<and> postings_valid st') \<and>
     (\<forall>t st2 res2.
        iterates iter \<and> extract_text rd p = Inr t \<and>
        process_documents iter rd st [p, p] = (st2, res2) \<longrightarrow>
        (\<exists>d1 d2. documents st2 = documents st @ [d1, d2] \<and>
            d_id d1 = length (documents st) \<and> d_id d2 = length (documents st) + 1 \<and>
            d_file d1 = d_file d2 \<and> d_text d1 = t \<and> d_text d2 = t \<and>
            d_keywords d1 = d_keywords d2) \<and>
        (\<forall>k \<in> extract_keywords t.
            posting (keyword_index st2) k =
              posting (keyword_index st) k @ [length (documents st), length (documents st) + 1])) \<and>
     ids_dense empty_processor \<and> postings_valid empty_processor"
proof -
  have a: "\<forall>st' s. process_file iter rd st p = Inr (st', s) \<longrightarrow>
        (\<exists>doc. documents st' = documents st @ [doc] \<and> d_id doc = length (documents st))"
    using process_file_inv(1) by blast
  have b: "\<forall>st' res. process_documents iter rd st paths = (st', res) \<longrightarrow>
        prefix (documents st) (documents st') \<and>
        (\<forall>k. prefix (posting (keyword_index st) k) (posting (keyword_index st') k)) \<and>
        ids_dense st' \<and> postings_valid st'"
  proof (intro allI impI)
    fix st' res assume "process_documents iter rd st paths = (st', res)"
    then obtain res0 where
      "process_files iter rd paths
         (st, \<lparr>processed = 0, failed = 0, total_documents = 0, r_documents = []\<rparr>) = (st', res0)"
      by (auto simp: process_documents_unfold)
    from process_files_inv [OF this] assms
    show "prefix (documents st) (documents st') \<and>
        (\<forall>k. prefix (posting (keyword_index st) k) (posting (keyword_index st') k)) \<and>
        ids_dense st' \<and> postings_valid st'"
      by blast
  qed
  have c: "\<forall>t st2 res2.
        iterates iter \<and> extract_text rd p = Inr t \<and>
        process_documents iter rd st [p, p] = (st2, res2) \<longrightarrow>
        (\<exists>d1 d2. documents st2 = documents st @ [d1, d2] \<and>
            d_id d1 = length (documents st) \<and> d_id d2 = length (documents st) + 1 \<and>
            d_file d1 = d_file d2 \<and> d_text d1 = t \<and> d_text d2 = t \<and>
            d_keywords d1 = d_keywords d2) \<and>
        (\<forall>k \<in> extract_keywords t.
            posting (keyword_index st2) k =
              posting (keyword_index st) k @ [length (documents st), length (documents st) + 1])"
    using reingest [of iter rd p _ st] by blast
  from a b c index_inv_empty(1,2) show ?thesis by blast
qed

theorem ingestion_appends_dense_ids_witness:
  "ids_dense example_index \<and> postings_valid example_index \<and>
   posting (keyword_index
              (fst (process_documents remdups example_readers empty_processor
                      [''c.txt'', ''c.txt'']))) ''java'' = [0, 1]"
proof -
  let ?paths = "[''a.txt'', ''b.txt'', ''c.txt'']"
  let ?twice = "process_documents remdups example_readers empty_processor [''c.txt'', ''c.txt'']"
  have e: "process_documents remdups example_readers empty_processor ?paths
             = (example_index,
                snd (process_documents remdups example_readers empty_processor ?paths))"
    by (simp add: example_index_def)
  have t: "?twice = (fst ?twice, snd ?twice)" by simp
  have i: "iterates remdups" by (simp add: iterates_def)
  have x: "extract_text example_readers ''c.txt'' = Inr ''java''" by code_simp
  have k: "''java'' \<in> extract_keywords ''java''"
    unfolding extract_keywords_def by code_simp
  have n: "length (documents empty_processor) = 0"
    and p: "posting (keyword_index empty_processor) ''java'' = []"
    by (simp_all add: empty_processor_def posting_def)
  from ingestion_appends_dense_ids
         [OF index_inv_empty(1,2), of remdups example_readers "''c.txt''" ?paths]
  have a: "ids_dense example_index \<and> postings_valid example_index"
    and b: "\<forall>k \<in> extract_keywords ''java''.
              posting (keyword_index (fst ?twice)) k =
              posting (keyword_index empty_processor) k
                @ [length (documents empty_processor), length (documents empty_processor) + 1]"
    using e t i x by blast+
  from b k n p have "posting (keyword_index (fst ?twice)) ''java'' = [0, 1]"
    by auto
  with a show ?thesis by simp
qed


section \<open>Search\<close>

lemma score_of_bump:
  "score_of (bump d scores) d' = score_of scores d' + (if d' = d then 1 else 0)"
  by (simp add: bump_def score_of_def update_conv')

lemma keys_bump:
  "map fst (bump d scores) =
     (if d \<in> set (map fst scores) then map fst scores else map fst scores @ [d])"
  by (simp add: bump_def update_keys)

lemma score_of_fold_bump:
  "score_of (fold bump ids scores) d = score_of scores d + int (count_list ids d)"
  by (induction ids arbitrary: scores) (auto simp: score_of_bump)

lemma keys_fold_bump:
  "map fst (fold bump ids scores) =
     map fst scores @ filter (\<lambda>d. d \<notin> set (map fst scores)) (first_seen ids)"
proof (induction ids arbitrary: scores)
  case Nil
  show ?case by simp
next
  case (Cons x xs)
  show ?case
  proof (cases "x \<in> set (map fst scores)")
    case True
    then have "filter (\<lambda>d. d \<notin> set (map fst scores)) (filter (\<lambda>y. y \<noteq> x) (first_seen xs))
                 = filter (\<lambda>d. d \<notin> set (map fst scores)) (first_seen xs)"
      by (auto intro!: filter_cong)
    with True show ?thesis by (simp add: Cons.IH keys_bump)
  next
    case False
    have "filter (\<lambda>d. d \<notin> set (map fst scores @ [x])) (first_seen xs)
            = filter (\<lambda>d. d \<notin> set (map fst scores)) (filter (\<lambda>y. y \<noteq> x) (first_seen xs))"
      by (auto intro!: filter_cong)
    with False show ?thesis by (simp add: Cons.IH keys_bump)
  qed
qed

lemma set_first_seen: "set (first_seen xs) = set xs"
  by (induction xs) auto

lemma distinct_first_seen: "distinct (first_seen xs)"
  by (induction xs) (auto simp: set_first_seen)

lemma doc_scores_fold:
  "fold (\<lambda>keyword scores. case idx (lower keyword) of None \<Rightarrow> scores
                           | Some ids \<Rightarrow> fold bump ids scores) qs acc
     = fold bump (candidates idx qs) acc"
proof (induction qs arbitrary: acc)
  case Nil
  show ?case by (simp add: candidates_def)
next
  case (Cons q qs)
  have "(case idx (lower q) of None \<Rightarrow> acc | Some ids \<Rightarrow> fold bump ids acc)
          = fold bump (posting idx (lower q)) acc"
    by (simp add: posting_def split: option.splits)
  then show ?case using Cons.IH by (simp add: candidates_def)
qed

lemma doc_scores_candidates: "doc_scores idx qs = fold bump (candidates idx qs) []"
  unfolding doc_scores_def by (rule doc_scores_fold)

lemma doc_scores_keys: "map fst (doc_scores idx qs) = first_seen (candidates idx qs)"
  by (simp add: doc_scores_candidates keys_fold_bump)

lemma doc_scores_entry:
  assumes "(d, s) \<in> set (doc_scores idx qs)"
  shows "s = int (count_list (candidates idx qs) d)" and "d \<in> set (candidates idx qs)"
proof -
  have "distinct (map fst (doc_scores idx qs))"
    by (simp add: doc_scores_keys distinct_first_seen)
  with assms have "map_of (doc_scores idx qs) d = Some s" by simp
  then have "score_of (doc_scores idx qs) d = s" by (simp add: score_of_def)
  moreover have "score_of [] d = 0" by (simp add: score_of_def)
  ultimately show "s = int (count_list (candidates idx qs) d)"
    using score_of_fold_bump [of "candidates idx qs" "[]" d]
    by (simp add: doc_scores_candidates)
  from assms have "d \<in> set (map fst (doc_scores idx qs))" by force
  then show "d \<in> set (candidates idx qs)"
    by (simp add: doc_scores_keys set_first_seen)
qed

lemma count_list_candidates:
  "count_list (candidates idx qs) d
     = sum_list (map (\<lambda>kw. count_list (posting idx (lower kw)) d) qs)"
  by (induction qs) (simp_all add: candidates_def)

lemma sum_list_indicator:
  "sum_list (map (\<lambda>x. if P x then 1 else 0) xs) = length (filter P xs)"
  by (induction xs) auto

lemma slice_to_prefix: "prefix (slice_to k xs) xs"
  by (simp add: slice_to_def take_is_prefix)

lemma length_slice_to: "0 \<le> k \<Longrightarrow> int (length (slice_to k xs)) \<le> k"
  by (simp add: slice_to_def)

lemma sorted_docs_subseq:
  "subseq (sorted_docs scores k) (sort_key (\<lambda>(d, s). - s) scores)"
  unfolding sorted_docs_def using slice_to_prefix by (rule prefix_imp_subseq)

lemma sorted_wrt_subseq: "subseq xs ys \<Longrightarrow> sorted_wrt R ys \<Longrightarrow> sorted_wrt R xs"
proof (induction rule: list_emb.induct)
  case (list_emb_Nil ys)
  show ?case by simp
next
  case (list_emb_Cons xs ys y)
  then show ?case by simp
next
  case (list_emb_Cons2 x y xs ys)
  from list_emb_Cons2.hyps(2) have "set xs \<subseteq> set ys"
    by (auto dest: list_emb_set)
  with list_emb_Cons2 show ?case by auto
qed


lemma make_match_sel [simp]:
  "match_score (make_match doc s qs) = s"
  "d_id (make_match doc s qs) = d_id doc"
  "d_keywords (make_match doc s qs) = d_keywords doc"
  "matched_keywords (make_match doc s qs) = filter (\<lambda>kw. lower kw \<in> set (d_keywords doc)) qs"
  by (simp_all add: make_match_def)

lemma search_unfold:
  "search iter st q k =
     (if extract_keywords q = {} then []
      else map (\<lambda>(d, s). make_match (documents st ! d) s (iter (keyword_words q)))
             (filter (\<lambda>(d, s). d < length (documents st))
                (sorted_docs (doc_scores (keyword_index st) (iter (keyword_words q))) k)))"
  by (simp add: search_def Let_def)

lemma set_sorted_docs: "set (sorted_docs scores k) \<subseteq> set scores"
  using list_emb_set [OF sorted_docs_subseq [of scores k]] by auto

lemma search_result:
  assumes "r \<in> set (search iter st q k)"
  obtains d s where "(d, s) \<in> set (doc_scores (keyword_index st) (iter (keyword_words q)))"
    and "d < length (documents st)"
    and "r = make_match (documents st ! d) s (iter (keyword_words q))"
proof -
  from assms have "extract_keywords q \<noteq> {}"
    by (auto simp: search_unfold split: if_splits)
  with assms obtain d s where
    "(d, s) \<in> set (sorted_docs (doc_scores (keyword_index st) (iter (keyword_words q))) k)"
    "d < length (documents st)"
    "r = make_match (documents st ! d) s (iter (keyword_words q))"
    by (auto simp: search_unfold)
  with set_sorted_docs that show ?thesis by blast
qed

lemma search_length: "0 \<le> k \<Longrightarrow> int (length (search iter st q k)) \<le> k"
proof -
  assume k: "0 \<le> k"
  let ?sd = "sorted_docs (doc_scores (keyword_index st) (iter (keyword_words q))) k"
  have "length (search iter st q k) \<le> length ?sd"
    by (simp add: search_unfold)
  moreover have "int (length ?sd) \<le> k"
    unfolding sorted_docs_def using k by (rule length_slice_to)
  ultimately show ?thesis by linarith
qed

lemma sort_desc_sorted:
  "sorted_wrt (\<lambda>a b. snd b \<le> snd a) (sort_key (\<lambda>(d, s). - s) (scores :: (nat \<times> int) list))"
proof -
  have "sorted (map (\<lambda>(d, s). - s) (sort_key (\<lambda>(d, s). - s) scores))"
    by (rule sorted_sort_key)
  then have "sorted_wrt (\<lambda>x y. (case x of (d, s) \<Rightarrow> - s) \<le> (case y of (d, s) \<Rightarrow> - s))
               (sort_key (\<lambda>(d, s). - s) scores)"
    by (simp only: sorted_map)
  then show ?thesis
    by (rule sorted_wrt_mono_rel [rotated]) (auto split: prod.splits)
qed

lemma search_sorted: "sorted_wrt (\<lambda>a b. match_score b \<le> match_score a) (search iter st q k)"
proof (cases "extract_keywords q = {}")
  case True
  then show ?thesis by (simp add: search_unfold)
next
  case False
  let ?items = "doc_scores (keyword_index st) (iter (keyword_words q))"
  let ?valid = "filter (\<lambda>(d, s). d < length (documents st)) (sorted_docs ?items k)"
  have "subseq ?valid (sorted_docs ?items k)" by simp
  then have "subseq ?valid (sort_key (\<lambda>(d, s). - s) ?items)"
    using sorted_docs_subseq by (rule subseq_order.order_trans)
  then have "sorted_wrt (\<lambda>a b. snd b \<le> snd a) ?valid"
    using sort_desc_sorted by (rule sorted_wrt_subseq)
  then have "sorted_wrt (\<lambda>a b. match_score b \<le> match_score a)
               (map (\<lambda>(d, s). make_match (documents st ! d) s (iter (keyword_words q))) ?valid)"
    unfolding sorted_wrt_map
    by (rule sorted_wrt_mono_rel [rotated]) (auto split: prod.splits)
  with False show ?thesis by (simp add: search_unfold)
qed

lemma search_ties:
  assumes "ids_dense st"
  shows "subseq (map d_id (filter (\<lambda>r. match_score r = s) (search iter st q k)))
           (first_seen (candidates (keyword_index st) (iter (keyword_words q))))"
proof (cases "extract_keywords q = {}")
  case True
  then show ?thesis by (simp add: search_unfold)
next
  case False
  let ?items = "doc_scores (keyword_index st) (iter (keyword_words q))"
  let ?valid = "filter (\<lambda>(d, s). d < length (documents st)) (sorted_docs ?items k)"
  let ?mk = "\<lambda>(d, s). make_match (documents st ! d) s (iter (keyword_words q))"
  have ids: "map d_id (filter (\<lambda>r. match_score r = s) (map ?mk ?valid))
               = map fst (filter (\<lambda>(d, s'). - s' = - s) ?valid)"
  proof -
    have "filter (\<lambda>r. match_score r = s) (map ?mk ?valid)
            = map ?mk (filter (\<lambda>(d, s'). - s' = - s) ?valid)"
      by (simp add: filter_map o_def case_prod_unfold)
    moreover have "map d_id (map ?mk (filter (\<lambda>(d, s'). - s' = - s) ?valid))
                     = map fst (filter (\<lambda>(d, s'). - s' = - s) ?valid)"
      using assms by (auto simp: ids_dense_def)
    ultimately show ?thesis by simp
  qed
  have "subseq ?valid (sorted_docs ?items k)" by simp
  then have "subseq ?valid (sort_key (\<lambda>(d, s). - s) ?items)"
    using sorted_docs_subseq by (rule subseq_order.order_trans)
  then have "subseq (filter (\<lambda>(d, s'). - s' = - s) ?valid)
               (filter (\<lambda>(d, s'). - s' = - s) (sort_key (\<lambda>(d, s). - s) ?items))"
    by (rule subseq_filter)
  also have "filter (\<lambda>(d, s'). - s' = - s) (sort_key (\<lambda>(d, s). - s) ?items)
               = filter (\<lambda>(d, s'). - s' = - s) ?items"
    using sort_key_stable [of "\<lambda>(d, s). - s" "- s" ?items]
    by (simp add: case_prod_unfold)
  finally have "subseq (filter (\<lambda>(d, s'). - s' = - s) ?valid) ?items"
    using subseq_filter_left subseq_order.order_trans by blast
  then have "subseq (map fst (filter (\<lambda>(d, s'). - s' = - s) ?valid)) (map fst ?items)"
    by (rule subseq_map)
  with ids False show ?thesis
    by (simp add: search_unfold doc_scores_keys)
qed

lemma iterates_lower:
  assumes "iterates iter" and "kw \<in> set (iter (keyword_words q))"
  shows "lower kw = kw"
proof -
  from assms have "kw \<in> set (keyword_words q)" by (simp add: iterates_def)
  then show ?thesis by (rule keyword_words_sound(3))
qed

lemma sum_list_cong_int:
  "(\<And>x. x \<in> set xs \<Longrightarrow> f x = g x) \<Longrightarrow> sum_list (map f xs) = sum_list (map g xs)"
  by (induction xs) auto

lemma search_score_count:
  assumes it: "iterates iter" and "ids_dense st" and pd: "postings_distinct st"
    and r: "r \<in> set (search iter st q k)"
  shows "match_score r =
           int (card {kw \<in> extract_keywords q. d_id r \<in> set (posting (keyword_index st) kw)})"
proof -
  let ?qs = "iter (keyword_words q)"
  let ?idx = "keyword_index st"
  from r obtain d s where e: "(d, s) \<in> set (doc_scores ?idx ?qs)"
    and v: "d < length (documents st)" and m: "r = make_match (documents st ! d) s ?qs"
    by (rule search_result)
  from v m assms(2) have id: "d_id r = d" by (simp add: ids_dense_def)
  have "count_list (candidates ?idx ?qs) d
          = sum_list (map (\<lambda>kw. count_list (posting ?idx (lower kw)) d) ?qs)"
    by (rule count_list_candidates)
  also have "\<dots> = sum_list (map (\<lambda>kw. if d \<in> set (posting ?idx kw) then 1 else 0) ?qs)"
  proof (rule sum_list_cong_int)
    fix kw assume "kw \<in> set ?qs"
    with it have "lower kw = kw" by (rule iterates_lower)
    moreover from pd have "distinct (posting ?idx kw)" by (simp add: postings_distinct_def)
    ultimately show "count_list (posting ?idx (lower kw)) d
                       = (if d \<in> set (posting ?idx kw) then 1 else 0)"
      by (simp add: count_list_distinct)
  qed
  also have "\<dots> = length (filter (\<lambda>kw. d \<in> set (posting ?idx kw)) ?qs)"
    by (rule sum_list_indicator)
  also have "\<dots> = card {kw \<in> set ?qs. d \<in> set (posting ?idx kw)}"
    using it by (intro length_filter_card) (simp add: iterates_def)
  finally have "count_list (candidates ?idx ?qs) d
                  = card {kw \<in> extract_keywords q. d \<in> set (posting ?idx kw)}"
    using it by (simp add: iterates_def extract_keywords_def)
  with doc_scores_entry(1) [OF e] m id show ?thesis by simp
qed

lemma search_matched_keywords:
  assumes it: "iterates iter" and r: "r \<in> set (search iter st q k)"
  shows "matched_keywords r =
           filter (\<lambda>kw. lower kw \<in> set (d_keywords r)) (iter (keyword_words q))"
    and "set (matched_keywords r) = {kw \<in> extract_keywords q. kw \<in> set (d_keywords r)}"
    and "distinct (matched_keywords r)"
proof -
  let ?qs = "iter (keyword_words q)"
  from r obtain d s where m: "r = make_match (documents st ! d) s ?qs"
    by (rule search_result)
  from m show f: "matched_keywords r = filter (\<lambda>kw. lower kw \<in> set (d_keywords r)) ?qs"
    by simp
  from it have s: "set ?qs = extract_keywords q" and d: "distinct ?qs"
    by (simp_all add: iterates_def extract_keywords_def)
  from f s iterates_lower [OF it, of _ q]
  show "set (matched_keywords r) = {kw \<in> extract_keywords q. kw \<in> set (d_keywords r)}"
    by auto
  from f d show "distinct (matched_keywords r)" by simp
qed

lemma search_matched_score:
  assumes "ids_dense st" and r: "r \<in> set (search iter st q k)"
    and c: "doc_consistent st (d_id r)"
  shows "int (length (matched_keywords r)) = match_score r" and "matched_keywords r \<noteq> []"
proof -
  let ?qs = "iter (keyword_words q)"
  let ?idx = "keyword_index st"
  from r obtain d s where e: "(d, s) \<in> set (doc_scores ?idx ?qs)"
    and v: "d < length (documents st)" and m: "r = make_match (documents st ! d) s ?qs"
    by (rule search_result)
  from v m assms(1) have id: "d_id r = d" by (simp add: ids_dense_def)
  have "count_list (candidates ?idx ?qs) d
          = sum_list (map (\<lambda>kw. count_list (posting ?idx (lower kw)) d) ?qs)"
    by (rule count_list_candidates)
  also have "\<dots> = sum_list (map (\<lambda>kw. if lower kw \<in> set (d_keywords (documents st ! d))
                                        then 1 else 0) ?qs)"
    using c id by (simp add: doc_consistent_def)
  also have "\<dots> = length (filter (\<lambda>kw. lower kw \<in> set (d_keywords (documents st ! d))) ?qs)"
    by (rule sum_list_indicator)
  also have "\<dots> = length (matched_keywords r)"
    using m by simp
  finally have eq: "count_list (candidates ?idx ?qs) d = length (matched_keywords r)" .
  with doc_scores_entry(1) [OF e] m show "int (length (matched_keywords r)) = match_score r"
    by simp
  from doc_scores_entry(2) [OF e] have "count_list (candidates ?idx ?qs) d \<noteq> 0"
    by (simp add: count_list_0_iff)
  with eq show "matched_keywords r \<noteq> []" by auto
qed

lemma process_file_consistent:
  assumes it: "iterates iter" and pv: "postings_valid st"
    and c: "\<forall>d < length (documents st). doc_consistent st d"
    and pf: "process_file iter rd st p = Inr (st', s)"
  shows "\<forall>d < length (documents st'). doc_consistent st' d"
proof -
  let ?n = "length (documents st)"
  from pf obtain t where
    d: "documents st' = documents st @
           [\<lparr> d_id = ?n, d_file = basename p, d_text = t,
              d_keywords = iter (keyword_words t),
              d_preview = (if length t > 200 then take 200 t @ ''...'' else t) \<rparr>]"
    and i: "keyword_index st' =
           fold (index_append ?n) (iter (keyword_words t)) (keyword_index st)"
    by (rule process_file_Inr)
  let ?kws = "iter (keyword_words t)"
  have cnt: "\<And>k. count_list (map lower ?kws) k = (if k \<in> set ?kws then 1 else 0)"
    using iterates_keywords [OF it, of t] by (simp add: count_list_distinct)
  have post: "\<And>k. posting (keyword_index st') k
                = posting (keyword_index st) k @ (if k \<in> set ?kws then [?n] else [])"
    by (simp add: i posting_fold_index_append cnt)
  show ?thesis
  proof (intro allI impI)
    fix d' assume "d' < length (documents st')"
    with d have "d' < ?n \<or> d' = ?n" by auto
    then show "doc_consistent st' d'"
    proof
      assume l: "d' < ?n"
      with c have "doc_consistent st d'" by simp
      with l show ?thesis
        by (simp add: doc_consistent_def post d nth_append)
    next
      assume e: "d' = ?n"
      have "\<And>k. count_list (posting (keyword_index st) k) ?n = 0"
        using pv by (auto simp: postings_valid_def count_list_0_iff)
      with e show ?thesis
        by (simp add: doc_consistent_def post d nth_append)
    qed
  qed
qed

lemma process_file_postings_distinct:
  assumes it: "iterates iter" and pv: "postings_valid st" and pd: "postings_distinct st"
    and pf: "process_file iter rd st p = Inr (st', s)"
  shows "postings_distinct st'"
proof -
  let ?n = "length (documents st)"
  from pf obtain t where
    i: "keyword_index st' =
           fold (index_append ?n) (iter (keyword_words t)) (keyword_index st)"
    by (rule process_file_Inr)
  let ?kws = "iter (keyword_words t)"
  have cnt: "\<And>k. count_list (map lower ?kws) k = (if k \<in> set ?kws then 1 else 0)"
    using iterates_keywords [OF it, of t] by (simp add: count_list_distinct)
  have post: "\<And>k. posting (keyword_index st') k
                = posting (keyword_index st) k @ (if k \<in> set ?kws then [?n] else [])"
    by (simp add: i posting_fold_index_append cnt)
  have "\<And>k. ?n \<notin> set (posting (keyword_index st) k)"
    using pv by (auto simp: postings_valid_def)
  with pd show ?thesis
    by (simp add: postings_distinct_def post)
qed

lemma process_files_consistent:
  assumes "iterates iter"
    and "process_files iter rd ps (st, res) = (st', res')"
    and "postings_valid st" and "postings_distinct st"
    and "\<forall>d < length (documents st). doc_consistent st d"
  shows "postings_distinct st' \<and> (\<forall>d < length (documents st'). doc_consistent st' d)"
  using assms(2-)
proof (induction ps arbitrary: st res)
  case Nil
  then show ?case by simp
next
  case (Cons p ps)
  show ?case
  proof (cases "process_file iter rd st p")
    case (Inl e)
    with Cons.prems(1)
    have "process_files iter rd ps (st, res\<lparr>failed := failed res + 1\<rparr>) = (st', res')"
      by simp
    from Cons.IH [OF this Cons.prems(2-)] show ?thesis .
  next
    case (Inr r)
    obtain st1 s where r: "r = (st1, s)" by (cases r)
    with Inr have pf: "process_file iter rd st p = Inr (st1, s)" by simp
    from Cons.prems(1) pf
    have "process_files iter rd ps
            (st1, res\<lparr>processed := processed res + 1, r_documents := r_documents res @ [s]\<rparr>)
          = (st', res')"
      by simp
    from Cons.IH [OF this process_file_postings_valid [OF pf Cons.prems(2)]
        process_file_postings_distinct [OF assms(1) Cons.prems(2,3) pf]
        process_file_consistent [OF assms(1) Cons.prems(2,4) pf]]
    show ?thesis .
  qed
qed

lemma iterates_remdups: "iterates remdups" "iterates (rev \<circ> remdups)"
  by (simp_all add: iterates_def)

lemma doc_consistent_empty: "\<forall>d < length (documents empty_processor). doc_consistent empty_processor d"
  by (simp add: empty_processor_def)

lemma example_index_inv:
  "ids_dense example_index" "postings_valid example_index" "postings_distinct example_index"
  "\<forall>d < length (documents example_index). doc_consistent example_index d"
proof -
  let ?r0 = "\<lparr>processed = 0, failed = 0, total_documents = 0, r_documents = []\<rparr>"
  let ?ps = "[''a.txt'', ''b.txt'', ''c.txt'']"
  obtain st' res' where
    pf: "process_files remdups example_readers ?ps (empty_processor, ?r0) = (st', res')"
    by (cases "process_files remdups example_readers ?ps (empty_processor, ?r0)")
  then have e: "example_index = st'"
    by (simp add: example_index_def process_documents_def)
  from process_files_inv(3,4) [OF pf] index_inv_empty
  show "ids_dense example_index" "postings_valid example_index"
    by (simp_all add: e)
  from process_files_consistent [OF iterates_remdups(1) pf index_inv_empty(2,3) doc_consistent_empty]
  show "postings_distinct example_index"
    "\<forall>d < length (documents example_index). doc_consistent example_index d"
    by (simp_all add: e)
qed

lemma length_first_seen: "length (first_seen xs) = card (set xs)"
  using distinct_card [OF distinct_first_seen [of xs]] by (simp add: set_first_seen)

lemma doc_scores_exact:
  "doc_scores idx qs =
     map (\<lambda>d. (d, int (count_list (candidates idx qs) d))) (first_seen (candidates idx qs))"
proof -
  have "map (\<lambda>x. (fst x, int (count_list (candidates idx qs) (fst x)))) (doc_scores idx qs)
          = doc_scores idx qs"
  proof (rule map_idI)
    fix x assume x: "x \<in> set (doc_scores idx qs)"
    obtain d s where p: "x = (d, s)" by (cases x)
    with x doc_scores_entry(1) [of d s idx qs] show
      "(fst x, int (count_list (candidates idx qs) (fst x))) = x"
      by simp
  qed
  then have "map (\<lambda>d. (d, int (count_list (candidates idx qs) d))) (map fst (doc_scores idx qs))
               = doc_scores idx qs"
    by (simp add: o_def)
  then show ?thesis by (simp only: doc_scores_keys)
qed

lemma count_candidates_hits:
  assumes it: "iterates iter" and pd: "postings_distinct st"
  shows "int (count_list (candidates (keyword_index st) (iter (keyword_words q))) d)
           = keyword_hits (keyword_index st) (iter (keyword_words q)) d"
proof -
  let ?qs = "iter (keyword_words q)"
  let ?idx = "keyword_index st"
  have "count_list (candidates ?idx ?qs) d
          = sum_list (map (\<lambda>kw. count_list (posting ?idx (lower kw)) d) ?qs)"
    by (rule count_list_candidates)
  also have "\<dots> = sum_list (map (\<lambda>kw. if d \<in> set (posting ?idx kw) then 1 else 0) ?qs)"
  proof (rule sum_list_cong_int)
    fix kw assume "kw \<in> set ?qs"
    with it have "lower kw = kw" by (rule iterates_lower)
    moreover from pd have "distinct (posting ?idx kw)" by (simp add: postings_distinct_def)
    ultimately show "count_list (posting ?idx (lower kw)) d
                       = (if d \<in> set (posting ?idx kw) then 1 else 0)"
      by (simp add: count_list_distinct)
  qed
  also have "\<dots> = length (filter (\<lambda>kw. d \<in> set (posting ?idx kw)) ?qs)"
    by (rule sum_list_indicator)
  finally show ?thesis by (simp add: keyword_hits_def)
qed

lemma doc_scores_ranked:
  assumes "iterates iter" and "postings_distinct st"
  shows "sort_key (\<lambda>(d, s). - s) (doc_scores (keyword_index st) (iter (keyword_words q)))
           = ranked_candidates (keyword_index st) (iter (keyword_words q))"
  unfolding ranked_candidates_def
  by (simp only: doc_scores_exact count_candidates_hits [OF assms])

lemma search_all_valid:
  assumes "postings_valid st"
  shows "filter (\<lambda>(d, s). d < length (documents st))
           (sorted_docs (doc_scores (keyword_index st) qs) k)
         = sorted_docs (doc_scores (keyword_index st) qs) k"
proof -
  have "\<forall>x \<in> set (sorted_docs (doc_scores (keyword_index st) qs) k).
          (case x of (d, s) \<Rightarrow> d < length (documents st))"
  proof
    fix x assume "x \<in> set (sorted_docs (doc_scores (keyword_index st) qs) k)"
    with set_sorted_docs have x: "x \<in> set (doc_scores (keyword_index st) qs)" by blast
    obtain d s where p: "x = (d, s)" by (cases x)
    with x doc_scores_entry(2) have "d \<in> set (candidates (keyword_index st) qs)" by blast
    then obtain kw where "d \<in> set (posting (keyword_index st) (lower kw))"
      by (auto simp: candidates_def)
    with assms have "d < length (documents st)" by (auto simp: postings_valid_def)
    with p show "case x of (d, s) \<Rightarrow> d < length (documents st)" by simp
  qed
  then show ?thesis by (simp add: filter_id_conv)
qed

lemma search_exact:
  assumes it: "iterates iter" and id: "ids_dense st" and pd: "postings_distinct st"
    and pv: "postings_valid st" and k: "0 \<le> k"
  shows "map (\<lambda>r. (d_id r, match_score r)) (search iter st q k)
           = take (nat k) (ranked_candidates (keyword_index st) (iter (keyword_words q)))"
proof (cases "extract_keywords q = {}")
  case True
  from it have "set (iter (keyword_words q)) = extract_keywords q"
    by (simp add: iterates_def extract_keywords_def)
  with True have "iter (keyword_words q) = []"
    by simp
  with True show ?thesis
    by (simp add: search_unfold ranked_candidates_def candidates_def)
next
  case False
  let ?qs = "iter (keyword_words q)"
  let ?sd = "sorted_docs (doc_scores (keyword_index st) ?qs) k"
  have v: "\<forall>x \<in> set ?sd. fst x < length (documents st)"
    using search_all_valid [OF pv, of ?qs k]
    by (metis (mono_tags, lifting) case_prod_unfold filter_id_conv)
  have "map (\<lambda>r. (d_id r, match_score r))
          (map (\<lambda>(d, s). make_match (documents st ! d) s ?qs) ?sd) = ?sd"
  proof -
    have "map (\<lambda>x. (d_id (documents st ! fst x), snd x)) ?sd = ?sd"
    proof (rule map_idI)
      fix x assume "x \<in> set ?sd"
      with v id show "(d_id (documents st ! fst x), snd x) = x"
        by (simp add: ids_dense_def)
    qed
    then show ?thesis by (simp add: o_def case_prod_unfold)
  qed
  with False have "map (\<lambda>r. (d_id r, match_score r)) (search iter st q k) = ?sd"
    by (simp add: search_unfold search_all_valid [OF pv])
  also have "?sd = take (nat k) (ranked_candidates (keyword_index st) ?qs)"
    using k by (simp add: sorted_docs_def slice_to_def doc_scores_ranked [OF it pd])
  finally show ?thesis .
qed

lemma search_result_document:
  assumes "ids_dense st" and "r \<in> set (search iter st q k)"
  shows "d_id r < length (documents st)" and "document.truncate r = documents st ! d_id r"
proof -
  from assms(2) obtain d s where v: "d < length (documents st)"
    and m: "r = make_match (documents st ! d) s (iter (keyword_words q))"
    by (rule search_result)
  from v m assms(1) have i: "d_id r = d" by (simp add: ids_dense_def)
  with v show "d_id r < length (documents st)" by simp
  from m i show "document.truncate r = documents st ! d_id r"
    by (simp add: make_match_def document.truncate_def)
qed

lemma length_ranked_candidates:
  "length (ranked_candidates idx qs) = card (set (candidates idx qs))"
  by (simp add: ranked_candidates_def length_first_seen)

lemma built_index_inv:
  assumes "iterates iter" and "process_documents iter rd empty_processor ps = (st, res)"
  shows "ids_dense st" "postings_valid st" "postings_distinct st"
    "\<forall>d < length (documents st). doc_consistent st d"
proof -
  from assms(2) obtain res0 where
    pf: "process_files iter rd ps
           (empty_processor, \<lparr>processed = 0, failed = 0, total_documents = 0, r_documents = []\<rparr>)
         = (st, res0)"
    by (auto simp: process_documents_unfold)
  from process_files_inv(3,4) [OF pf] index_inv_empty
  show "ids_dense st" "postings_valid st" by simp_all
  from process_files_consistent [OF assms(1) pf index_inv_empty(2,3) doc_consistent_empty]
  show "postings_distinct st" "\<forall>d < length (documents st). doc_consistent st d"
    by simp_all
qed

lemma ranking_index_inv:
  "ids_dense ranking_index" "postings_valid ranking_index" "postings_distinct ranking_index"
proof -
  have "process_documents remdups ranking_readers empty_processor [''x.txt'', ''y.txt'']
          = (ranking_index,
             snd (process_documents remdups ranking_readers empty_processor
                    [''x.txt'', ''y.txt'']))"
    by (simp add: ranking_index_def)
  from built_index_inv(1-3) [OF iterates_remdups(1) this]
  show "ids_dense ranking_index" "postings_valid ranking_index"
    "postings_distinct ranking_index" .
qed

text \<open>
  Claim C4, as the source has it. The index is one that ingestion builds: the id of a
  document is its position in the list of documents (\<open>ids_dense\<close>), no posting list
  holds an id twice (\<open>postings_distinct\<close>), and every id in a posting list is the id
  of a stored document (\<open>postings_valid\<close>); \<open>built_index_inv\<close> shows that every index
  built by \<open>process_documents\<close> from the empty one is of this kind. The candidates of
  a query are the ids found in the posting lists of its keywords, in the order in
  which the scoring loop first reaches them (the posting list of the first query
  keyword iterated, then that of the next). For every query and every \<open>top_k\<close> that is
  not negative, the ids and scores that \<open>search\<close> returns are exactly the first \<open>top_k\<close>
  entries of the candidates paired with the number of query keywords that hit them,
  stably sorted by that number, largest first: every candidate is returned when there
  are at most \<open>top_k\<close> of them, and otherwise the \<open>top_k\<close> best ones are. So there are
  \<open>min top_k n\<close> results for \<open>n\<close> candidates, at most \<open>top_k\<close>. Each result carries
  the stored document of its id. The results are ordered by score, largest first, so
  a document that matches two query keywords stands before one that matches only one
  of them. The score of a result is the number of query keywords whose posting lists
  hold its id. Results of equal score keep the order in which the scoring loop first
  reaches their ids, since the sort is stable and compares scores only. Each result
  reports the query keywords that are among the keywords stored with the document.
\<close>

theorem search_ranking:
  assumes "iterates iter" and "ids_dense st" and "postings_distinct st"
  shows
    "(0 \<le> top_k \<and> postings_valid st \<longrightarrow>
        map (\<lambda>r. (d_id r, match_score r)) (search iter st q top_k) =
          take (nat top_k) (ranked_candidates (keyword_index st) (iter (keyword_words q))) \<and>
        length (search iter st q top_k) =
          min (nat top_k) (card (set (candidates (keyword_index st) (iter (keyword_words q)))))) \<and>
     (\<forall>r \<in> set (search iter st q top_k).
        d_id r < length (documents st) \<and> document.truncate r = documents st ! d_id r) \<and>
     (0 \<le> top_k \<longrightarrow> int (length (search iter st q top_k)) \<le> top_k) \<and>
     sorted_wrt (\<lambda>a b. match_score b \<le> match_score a) (search iter st q top_k) \<and>
     (\<forall>r \<in> set (search iter st q top_k).
        match_score r =
          int (card {kw \<in> extract_keywords q. d_id r \<in> set (posting (keyword_index st) kw)})) \<and>
     (\<forall>s. subseq (map d_id (filter (\<lambda>r. match_score r = s) (search iter st q top_k)))
                 (first_seen (candidates (keyword_index st) (iter (keyword_words q))))) \<and>
     (\<forall>r \<in> set (search iter st q top_k).
        set (matched_keywords r) = {kw \<in> extract_keywords q. kw \<in> set (d_keywords r)})"
proof -
  have a: "0 \<le> top_k \<and> postings_valid st \<longrightarrow>
        map (\<lambda>r. (d_id r, match_score r)) (search iter st q top_k) =
          take (nat top_k) (ranked_candidates (keyword_index st) (iter (keyword_words q))) \<and>
        length (search iter st q top_k) =
          min (nat top_k) (card (set (candidates (keyword_index st) (iter (keyword_words q)))))"
  proof
    assume h: "0 \<le> top_k \<and> postings_valid st"
    then have e: "map (\<lambda>r. (d_id r, match_score r)) (search iter st q top_k) =
          take (nat top_k) (ranked_candidates (keyword_index st) (iter (keyword_words q)))"
      using search_exact [OF assms] by blast
    have "length (search iter st q top_k)
            = length (map (\<lambda>r. (d_id r, match_score r)) (search iter st q top_k))"
      by simp
    also have "\<dots> = min (nat top_k)
                       (card (set (candidates (keyword_index st) (iter (keyword_words q)))))"
      by (simp only: e length_take length_ranked_candidates min.commute)
    finally show "map (\<lambda>r. (d_id r, match_score r)) (search iter st q top_k) =
          take (nat top_k) (ranked_candidates (keyword_index st) (iter (keyword_words q))) \<and>
        length (search iter st q top_k) =
          min (nat top_k) (card (set (candidates (keyword_index st) (iter (keyword_words q)))))"
      using e by blast
  qed
  have b: "\<forall>r \<in> set (search iter st q top_k).
        d_id r < length (documents st) \<and> document.truncate r = documents st ! d_id r"
    using search_result_document [OF assms(2)] by blast
  have c: "0 \<le> top_k \<longrightarrow> int (length (search iter st q top_k)) \<le> top_k"
    using search_length [of top_k iter st q] by blast
  have d: "sorted_wrt (\<lambda>a b. match_score b \<le> match_score a) (search iter st q top_k)"
    by (rule search_sorted)
  have e: "\<forall>r \<in> set (search iter st q top_k).
        match_score r =
          int (card {kw \<in> extract_keywords q. d_id r \<in> set (posting (keyword_index st) kw)})"
    using search_score_count [OF assms] by blast
  have f: "\<forall>s. subseq (map d_id (filter (\<lambda>r. match_score r = s) (search iter st q top_k)))
                 (first_seen (candidates (keyword_index st) (iter (keyword_words q))))"
    using search_ties [OF assms(2)] by blast
  have g: "\<forall>r \<in> set (search iter st q top_k).
        set (matched_keywords r) = {kw \<in> extract_keywords q. kw \<in> set (d_keywords r)}"
    using search_matched_keywords(2) [OF assms(1)] by blast
  show ?thesis
    apply (intro conjI)
          apply (rule a)
         apply (rule b)
        apply (rule c)
       apply (rule d)
      apply (rule e)
     apply (rule f)
    apply (rule g)
    done
qed

theorem search_ranking_witness:
  "map (\<lambda>r. (d_id r, match_score r)) (search remdups ranking_index ''java python'' 1)
     = [(1, 2)] \<and>
   map (\<lambda>r. (d_id r, match_score r)) (search remdups ranking_index ''java python'' 5)
     = [(1, 2), (0, 1)]"
proof -
  let ?rc = "ranked_candidates (keyword_index ranking_index)
               (remdups (keyword_words ''java python''))"
  have r1: "take (nat 1) ?rc = [(1, 2)]" by code_simp
  have r5: "take (nat 5) ?rc = [(1, 2), (0, 1)]" by code_simp
  note t = search_ranking [OF iterates_remdups(1) ranking_index_inv(1,3),
             of _ "''java python''"]
  from t [of 1] ranking_index_inv(2)
  have "map (\<lambda>r. (d_id r, match_score r)) (search remdups ranking_index ''java python'' 1)
          = take (nat 1) ?rc"
    by simp
  with r1 have a: "map (\<lambda>r. (d_id r, match_score r))
                     (search remdups ranking_index ''java python'' 1) = [(1, 2)]"
    by (simp only:)
  from t [of 5] ranking_index_inv(2)
  have "map (\<lambda>r. (d_id r, match_score r)) (search remdups ranking_index ''java python'' 5)
          = take (nat 5) ?rc"
    by simp
  with r5 have b: "map (\<lambda>r. (d_id r, match_score r))
                     (search remdups ranking_index ''java python'' 5) = [(1, 2), (0, 1)]"
    by (simp only:)
  from a b show ?thesis by (rule conjI)
qed


text \<open>
  Ties are not broken by ascending document id. In the example index the keyword java
  has the posting list 0, 2 and python the posting list 1. The query "java python"
  gives every document the score 1; a set of two keywords has two iteration orders,
  and the results carry the ids 0, 2, 1 under one and 1, 0, 2 under the other. With
  \<open>top_k = -1\<close> the slice drops the last candidate only and two results are returned.
\<close>

theorem search_ties_counterexample:
  "iterates remdups \<and> iterates (rev \<circ> remdups) \<and>
   map d_id (search remdups example_index ''java python'' 5) = [0, 2, 1] \<and>
   map match_score (search remdups example_index ''java python'' 5) = [1, 1, 1] \<and>
   map d_id (search (rev \<circ> remdups) example_index ''java python'' 5) = [1, 0, 2] \<and>
   map match_score (search (rev \<circ> remdups) example_index ''java python'' 5) = [1, 1, 1] \<and>
   length (search remdups example_index ''java python'' (- 1)) = 2"
proof -
  have a: "map d_id (search remdups example_index ''java python'' 5) = [0, 2, 1]"
    by code_simp
  have b: "map match_score (search remdups example_index ''java python'' 5) = [1, 1, 1]"
    by code_simp
  have c: "map d_id (search (rev \<circ> remdups) example_index ''java python'' 5) = [1, 0, 2]"
    by code_simp
  have d: "map match_score (search (rev \<circ> remdups) example_index ''java python'' 5) = [1, 1, 1]"
    by code_simp
  have e: "length (search remdups example_index ''java python'' (- 1)) = 2"
    by code_simp
  from iterates_remdups a b c d e show ?thesis by blast
qed

text \<open>
  Claim C10. The matched keywords of a result are the query keywords whose lowercased
  form is among the keywords stored with the document, in the order in which the query
  keywords are iterated; they are distinct and belong to the keywords extracted from
  the query. For a document that is consistent with the posting lists, the list is
  not empty and its length is the match score. Ingestion keeps every stored document
  consistent with the posting lists.
\<close>

theorem matched_keywords_score:
  assumes "iterates iter" and "ids_dense st"
  shows
    "(\<forall>r \<in> set (search iter st q top_k).
        matched_keywords r =
          filter (\<lambda>kw. lower kw \<in> set (d_keywords r)) (iter (keyword_words q)) \<and>
        set (matched_keywords r) \<subseteq> extract_keywords q \<and>
        distinct (matched_keywords r) \<and>
        (doc_consistent st (d_id r) \<longrightarrow>
           matched_keywords r \<noteq> [] \<and> int (length (matched_keywords r)) = match_score r)) \<and>
     (\<forall>st' res.
        postings_valid st \<and> postings_distinct st \<and>
        (\<forall>d < length (documents st). doc_consistent st d) \<and>
        process_documents iter rd st paths = (st', res) \<longrightarrow>
        postings_distinct st' \<and> (\<forall>d < length (documents st'). doc_consistent st' d))"
proof -
  have a: "\<forall>r \<in> set (search iter st q top_k).
        matched_keywords r =
          filter (\<lambda>kw. lower kw \<in> set (d_keywords r)) (iter (keyword_words q)) \<and>
        set (matched_keywords r) \<subseteq> extract_keywords q \<and>
        distinct (matched_keywords r) \<and>
        (doc_consistent st (d_id r) \<longrightarrow>
           matched_keywords r \<noteq> [] \<and> int (length (matched_keywords r)) = match_score r)"
  proof
    fix r assume r: "r \<in> set (search iter st q top_k)"
    from search_matched_keywords [OF assms(1) r] search_matched_score [OF assms(2) r]
    show "matched_keywords r =
          filter (\<lambda>kw. lower kw \<in> set (d_keywords r)) (iter (keyword_words q)) \<and>
        set (matched_keywords r) \<subseteq> extract_keywords q \<and>
        distinct (matched_keywords r) \<and>
        (doc_consistent st (d_id r) \<longrightarrow>
           matched_keywords r \<noteq> [] \<and> int (length (matched_keywords r)) = match_score r)"
      by blast
  qed
  have b: "\<forall>st' res.
        postings_valid st \<and> postings_distinct st \<and>
        (\<forall>d < length (documents st). doc_consistent st d) \<and>
        process_documents iter rd st paths = (st', res) \<longrightarrow>
        postings_distinct st' \<and> (\<forall>d < length (documents st'). doc_consistent st' d)"
  proof (intro allI impI)
    fix st' res
    assume h: "postings_valid st \<and> postings_distinct st \<and>
        (\<forall>d < length (documents st). doc_consistent st d) \<and>
        process_documents iter rd st paths = (st', res)"
    then obtain res0 where
      "process_files iter rd paths
         (st, \<lparr>processed = 0, failed = 0, total_documents = 0, r_documents = []\<rparr>) = (st', res0)"
      by (auto simp: process_documents_unfold)
    from process_files_consistent [OF assms(1) this] h
    show "postings_distinct st' \<and> (\<forall>d < length (documents st'). doc_consistent st' d)"
      by blast
  qed
  from a b show ?thesis by blast
qed

theorem matched_keywords_score_witness:
  "matched_keywords (hd (search remdups example_index ''java python'' 5)) \<noteq> [] \<and>
   int (length (matched_keywords (hd (search remdups example_index ''java python'' 5))))
     = match_score (hd (search remdups example_index ''java python'' 5))"
proof -
  let ?rs = "search remdups example_index ''java python'' 5"
  have ids: "map d_id ?rs = [0, 2, 1]" by code_simp
  then have ne: "?rs \<noteq> []" by auto
  then have m: "hd ?rs \<in> set ?rs" by simp
  from ids ne have "d_id (hd ?rs) = 0" by (cases ?rs) auto
  moreover have "length (documents example_index) = 3" by code_simp
  ultimately have "doc_consistent example_index (d_id (hd ?rs))"
    using example_index_inv(4) by simp
  with matched_keywords_score [OF iterates_remdups(1) example_index_inv(1), of "''java python''" 5] m
  show ?thesis by blast
qed


section \<open>The query engine\<close>

lemma getattr_missing:
  "getattr cache ''get'' = Inl (AttributeError
      ([CHR 0x27] @ ''SmartCache'' @ [CHR 0x27] @ '' object has no attribute ''
       @ [CHR 0x27] @ ''get'' @ [CHR 0x27]))"
  "getattr cache ''set'' = Inl (AttributeError
      ([CHR 0x27] @ ''SmartCache'' @ [CHR 0x27] @ '' object has no attribute ''
       @ [CHR 0x27] @ ''set'' @ [CHR 0x27]))"
  "getattr cache ''cache_key'' = Inl (AttributeError
      ([CHR 0x27] @ ''SmartCache'' @ [CHR 0x27] @ '' object has no attribute ''
       @ [CHR 0x27] @ ''cache_key'' @ [CHR 0x27]))"
  by (simp_all add: getattr_def SmartCache_methods_def)

lemma dict_set_present:
  "map_of (dict_set k v d) k' = (if k' = k then Some v else map_of d k')"
  by (simp add: dict_set_def update_conv')

lemma dict_update_present:
  "map_of d k \<noteq> None \<Longrightarrow> map_of (dict_update d e) k \<noteq> None"
  unfolding dict_update_def
  by (induction e arbitrary: d) (auto simp: dict_set_present)

lemma process_query_try_Inr:
  assumes "process_query_try fsub round3 hsql hdoc t0 t1 q = Inr r"
  shows "map_of r ''performance''
           = Some (PDict [(''response_time'', PFloat (round3 (fsub t1 t0)))])"
    and "map_of r ''query'' \<noteq> None" and "map_of r ''query_type'' \<noteq> None"
proof -
  let ?init = "[(''query'', PStr q), (''query_type'', PStr (classify_query q)),
                (''results'', PList []), (''sources'', PList []),
                (''performance'', PDict []), (''cached'', PBool False)]"
  have init: "map_of ?init ''query'' \<noteq> None" "map_of ?init ''query_type'' \<noteq> None"
    by simp_all
  have keep: "\<And>e. map_of (dict_update ?init e) ''query'' \<noteq> None"
    "\<And>e. map_of (dict_update ?init e) ''query_type'' \<noteq> None"
    by (rule dict_update_present [OF init(1)], rule dict_update_present [OF init(2)])
  from assms show "map_of r ''performance''
           = Some (PDict [(''response_time'', PFloat (round3 (fsub t1 t0)))])"
    by (auto simp: process_query_try_def Let_def dict_set_present
        split: sum.splits if_splits)
  from assms keep(1) show "map_of r ''query'' \<noteq> None"
    by (auto simp: process_query_try_def Let_def dict_set_present
        split: sum.splits if_splits)
  from assms keep(2) show "map_of r ''query_type'' \<noteq> None"
    by (auto simp: process_query_try_def Let_def dict_set_present
        split: sum.splits if_splits)
qed

lemma classify_query_range:
  "classify_query q = ''sql'' \<or> classify_query q = ''document'' \<or> classify_query q = ''hybrid''"
  by (simp add: classify_query_def Let_def)

lemma process_query_try_Inl:
  "process_query_try fsub round3 hsql hdoc t0 t1 q = Inl e \<longleftrightarrow>
     (classify_query q = ''sql'' \<and> hsql q = Inl e) \<or>
     (classify_query q = ''document'' \<and> hdoc q = Inl e) \<or>
     (classify_query q = ''hybrid'' \<and> (hsql q = Inl e \<or> (\<exists>r. hsql q = Inr r) \<and> hdoc q = Inl e))"
  using classify_query_range [of q]
  by (auto simp: process_query_try_def Let_def split: sum.splits)


text \<open>
  Claim C8. \<open>process_query\<close> returns a dictionary for every query: every exception
  that a handler raises inside the \<^verbatim>\<open>try\<close> block is a value of \<open>exn\<close>, and the handler
  of the block turns it into the degraded result with the query, the message of the
  exception as error and the query type unknown. When the block runs to its end, the
  result it returns holds the key performance with the response time, the rounded
  difference of the two clock readings. The block fails exactly when a handler that
  the query type invokes raises. In both cases the result holds the keys query and
  query\_type.
\<close>

theorem process_query_always_responds:
  "(\<forall>e. process_query_try fsub round3 hsql hdoc t0 t1 q = Inl e \<longrightarrow>
        process_query fsub round3 hsql hdoc t0 t1 q =
          [(''query'', PStr q), (''error'', PStr (str_exn e)),
           (''query_type'', PStr ''unknown'')]) \<and>
   (\<forall>r. process_query_try fsub round3 hsql hdoc t0 t1 q = Inr r \<longrightarrow>
        process_query fsub round3 hsql hdoc t0 t1 q = r \<and>
        map_of r ''performance''
          = Some (PDict [(''response_time'', PFloat (round3 (fsub t1 t0)))])) \<and>
   (\<forall>e. process_query_try fsub round3 hsql hdoc t0 t1 q = Inl e \<longleftrightarrow>
        (classify_query q = ''sql'' \<and> hsql q = Inl e) \<or>
        (classify_query q = ''document'' \<and> hdoc q = Inl e) \<or>
        (classify_query q = ''hybrid'' \<and>
           (hsql q = Inl e \<or> (\<exists>r. hsql q = Inr r) \<and> hdoc q = Inl e))) \<and>
   map_of (process_query fsub round3 hsql hdoc t0 t1 q) ''query'' \<noteq> None \<and>
   map_of (process_query fsub round3 hsql hdoc t0 t1 q) ''query_type'' \<noteq> None"
proof -
  have a: "\<forall>e. process_query_try fsub round3 hsql hdoc t0 t1 q = Inl e \<longrightarrow>
        process_query fsub round3 hsql hdoc t0 t1 q =
          [(''query'', PStr q), (''error'', PStr (str_exn e)),
           (''query_type'', PStr ''unknown'')]"
    by (simp add: process_query_def)
  have b: "\<forall>r. process_query_try fsub round3 hsql hdoc t0 t1 q = Inr r \<longrightarrow>
        process_query fsub round3 hsql hdoc t0 t1 q = r \<and>
        map_of r ''performance''
          = Some (PDict [(''response_time'', PFloat (round3 (fsub t1 t0)))])"
    using process_query_try_Inr(1) [of fsub round3 hsql hdoc t0 t1 q]
    by (simp add: process_query_def)
  have c: "\<forall>e. process_query_try fsub round3 hsql hdoc t0 t1 q = Inl e \<longleftrightarrow>
        (classify_query q = ''sql'' \<and> hsql q = Inl e) \<or>
        (classify_query q = ''document'' \<and> hdoc q = Inl e) \<or>
        (classify_query q = ''hybrid'' \<and>
           (hsql q = Inl e \<or> (\<exists>r. hsql q = Inr r) \<and> hdoc q = Inl e))"
    using process_query_try_Inl [of fsub round3 hsql hdoc t0 t1 q] by blast
  have d: "map_of (process_query fsub round3 hsql hdoc t0 t1 q) ''query'' \<noteq> None \<and>
           map_of (process_query fsub round3 hsql hdoc t0 t1 q) ''query_type'' \<noteq> None"
  proof (cases "process_query_try fsub round3 hsql hdoc t0 t1 q")
    case (Inl e)
    then show ?thesis by (simp add: process_query_def)
  next
    case (Inr r)
    with process_query_try_Inr(2,3) [OF Inr] show ?thesis
      by (simp add: process_query_def)
  qed
  from a b c d show ?thesis by blast
qed

theorem process_query_always_responds_witness:
  "process_query (-) (\<lambda>x. x) (\<lambda>q. Inl (RuntimeError ''connection lost''))
       (\<lambda>q. Inr []) (10 :: int) 12 ''how many employees are in engineering''
     = [(''query'', PStr ''how many employees are in engineering''),
        (''error'', PStr ''connection lost''),
        (''query_type'', PStr ''unknown'')] \<and>
   map_of (process_query (-) (\<lambda>x. x) (\<lambda>q. Inl (RuntimeError ''connection lost''))
             (\<lambda>q. Inr []) (10 :: int) 12 ''python skills'') ''performance''
     = Some (PDict [(''response_time'', PFloat 2)])"
proof -
  let ?hsql = "\<lambda>q :: string. Inl (RuntimeError ''connection lost'') :: exn + int pydict"
  let ?hdoc = "\<lambda>q :: string. Inr [] :: exn + int pydict"
  have c1: "classify_query ''how many employees are in engineering'' = ''sql''" by code_simp
  have c2: "classify_query ''python skills'' = ''document''" by code_simp
  have t1: "process_query_try (-) (\<lambda>x. x) ?hsql ?hdoc (10 :: int) 12
              ''how many employees are in engineering'' = Inl (RuntimeError ''connection lost'')"
    using process_query_always_responds
            [of "(-)" "\<lambda>x. x" ?hsql ?hdoc 10 12 "''how many employees are in engineering''"] c1
    by blast
  have "\<exists>r. process_query_try (-) (\<lambda>x. x) ?hsql ?hdoc (10 :: int) 12 ''python skills'' = Inr r"
  proof (cases "process_query_try (-) (\<lambda>x. x) ?hsql ?hdoc (10 :: int) 12 ''python skills''")
    case (Inl e)
    with process_query_always_responds
            [of "(-)" "\<lambda>x. x" ?hsql ?hdoc 10 12 "''python skills''"] c2
    show ?thesis by auto
  next
    case (Inr r)
    then show ?thesis by blast
  qed
  then obtain r where
    t2: "process_query_try (-) (\<lambda>x. x) ?hsql ?hdoc (10 :: int) 12 ''python skills'' = Inr r"
    by blast
  from process_query_always_responds
         [of "(-)" "\<lambda>x. x" ?hsql ?hdoc 10 12 "''how many employees are in engineering''"] t1
  have a: "process_query (-) (\<lambda>x. x) ?hsql ?hdoc (10 :: int) 12
             ''how many employees are in engineering''
           = [(''query'', PStr ''how many employees are in engineering''),
              (''error'', PStr ''connection lost''),
              (''query_type'', PStr ''unknown'')]"
    by simp
  from process_query_always_responds
         [of "(-)" "\<lambda>x. x" ?hsql ?hdoc 10 12 "''python skills''"] t2
  have b: "map_of (process_query (-) (\<lambda>x. x) ?hsql ?hdoc (10 :: int) 12 ''python skills'')
             ''performance'' = Some (PDict [(''response_time'', PFloat 2)])"
    by simp
  from a b show ?thesis by blast
qed

section \<open>The cache\<close>

lemma cached_raises:
  "cached rt prefix_str ttl func args = Inl (AttributeError
      ([CHR 0x27] @ ''SmartCache'' @ [CHR 0x27] @ '' object has no attribute ''
       @ [CHR 0x27] @ ''cache_key'' @ [CHR 0x27]))"
  by (simp add: cached_def getattr_missing(3))

text \<open>
  Claim C1 on the code. The class \<^verbatim>\<open>SmartCache\<close> defines neither \<^verbatim>\<open>get\<close> nor \<^verbatim>\<open>set\<close>
  nor \<^verbatim>\<open>cache_key\<close>, and there is no store behind the object. Whatever the key, the
  value and the time to live, \<^verbatim>\<open>cache.set\<close> and \<^verbatim>\<open>cache.get\<close> raise
  \<^verbatim>\<open>AttributeError\<close>, and so does every function that the decorator wraps, before the
  function runs. The engine therefore answers every query that it classifies as sql or
  hybrid with the degraded result.
\<close>

theorem cache_get_set_missing:
  "cache_set rt k v ttl = Inl (AttributeError
      ([CHR 0x27] @ ''SmartCache'' @ [CHR 0x27] @ '' object has no attribute ''
       @ [CHR 0x27] @ ''set'' @ [CHR 0x27])) \<and>
   cache_get rt k = Inl (AttributeError
      ([CHR 0x27] @ ''SmartCache'' @ [CHR 0x27] @ '' object has no attribute ''
       @ [CHR 0x27] @ ''get'' @ [CHR 0x27])) \<and>
   cached rt prefix_str ttl func args = Inl (AttributeError
      ([CHR 0x27] @ ''SmartCache'' @ [CHR 0x27] @ '' object has no attribute ''
       @ [CHR 0x27] @ ''cache_key'' @ [CHR 0x27])) \<and>
   (classify_query q = ''sql'' \<or> classify_query q = ''hybrid'' \<longrightarrow>
      engine_process_query rt' fsub round3 generate execute iter st t0 t1 q =
        [(''query'', PStr q),
         (''error'', PStr ([CHR 0x27] @ ''SmartCache'' @ [CHR 0x27] @ '' object has no attribute ''
                           @ [CHR 0x27] @ ''cache_key'' @ [CHR 0x27])),
         (''query_type'', PStr ''unknown'')])"
proof -
  have a: "cache_set rt k v ttl = Inl (AttributeError
      ([CHR 0x27] @ ''SmartCache'' @ [CHR 0x27] @ '' object has no attribute ''
       @ [CHR 0x27] @ ''set'' @ [CHR 0x27]))"
    by (simp add: cache_set_def getattr_missing(2))
  have b: "cache_get rt k = Inl (AttributeError
      ([CHR 0x27] @ ''SmartCache'' @ [CHR 0x27] @ '' object has no attribute ''
       @ [CHR 0x27] @ ''get'' @ [CHR 0x27]))"
    by (simp add: cache_get_def getattr_missing(1))
  have d: "classify_query q = ''sql'' \<or> classify_query q = ''hybrid'' \<longrightarrow>
      engine_process_query rt' fsub round3 generate execute iter st t0 t1 q =
        [(''query'', PStr q),
         (''error'', PStr ([CHR 0x27] @ ''SmartCache'' @ [CHR 0x27] @ '' object has no attribute ''
                           @ [CHR 0x27] @ ''cache_key'' @ [CHR 0x27])),
         (''query_type'', PStr ''unknown'')]"
  proof
    assume c: "classify_query q = ''sql'' \<or> classify_query q = ''hybrid''"
    let ?h = "cached rt' ''sql_query'' (Some 300) (handle_sql_query generate execute)"
    let ?e = "AttributeError
      ([CHR 0x27] @ ''SmartCache'' @ [CHR 0x27] @ '' object has no attribute ''
       @ [CHR 0x27] @ ''cache_key'' @ [CHR 0x27])"
    have "?h q = Inl ?e" by (rule cached_raises)
    with c have "process_query_try fsub round3 ?h (handle_document_query iter st) t0 t1 q = Inl ?e"
      by (auto simp: process_query_try_Inl)
    then show "engine_process_query rt' fsub round3 generate execute iter st t0 t1 q =
        [(''query'', PStr q),
         (''error'', PStr ([CHR 0x27] @ ''SmartCache'' @ [CHR 0x27] @ '' object has no attribute ''
                           @ [CHR 0x27] @ ''cache_key'' @ [CHR 0x27])),
         (''query_type'', PStr ''unknown'')]"
      by (simp add: engine_process_query_def process_query_def)
  qed
  from a b cached_raises [of rt prefix_str ttl func args] d show ?thesis by blast
qed

theorem cache_get_set_missing_witness:
  "engine_process_query
     \<lparr> call_cache_key = (\<lambda>m p a. Inr (p @ a)), call_get = (\<lambda>m k. Inr None),
       call_set = (\<lambda>m k v t. Inr ()) \<rparr>
     (-) (\<lambda>x. x) (\<lambda>q. []) (\<lambda>s. Inr []) remdups empty_processor (10 :: int) 12
     ''how many employees are in engineering''
   = [(''query'', PStr ''how many employees are in engineering''),
      (''error'', PStr ([CHR 0x27] @ ''SmartCache'' @ [CHR 0x27] @ '' object has no attribute ''
                        @ [CHR 0x27] @ ''cache_key'' @ [CHR 0x27])),
      (''query_type'', PStr ''unknown'')]"
proof -
  let ?rt = "\<lparr> call_cache_key = (\<lambda>m p a. Inr (p @ a)), call_get = (\<lambda>m k. Inr None),
              call_set = (\<lambda>m k v t. Inr ()) \<rparr> :: (string, int pydict) calls"
  have c: "classify_query ''how many employees are in engineering'' = ''sql''" by code_simp
  from cache_get_set_missing
         [of ?rt "[]" "[]" None "[]" "\<lambda>a. Inr []" "[]"
             "''how many employees are in engineering''" ?rt
             "(-)" "\<lambda>x. x" "\<lambda>q. []" "\<lambda>s. Inr []" remdups empty_processor
             "10 :: int" "12 :: int"] c
  show ?thesis by blast
qed


end
